theory Spec2Isabelle
  imports Complex_Main
begin

section \<open>JavaScript numbers and dates\<close>

text \<open>
  The engine is the file \<^verbatim>\<open>src/test_config.js\<close> (the action module that \<^verbatim>\<open>index.js\<close>
  loads). It compares submission timestamps with \<^verbatim>\<open>Date.parse(...) / 1000\<close> and writes commit
  dates with \<^verbatim>\<open>new Date(ts * 1000).toISOString()\<close>. A JavaScript number is modelled as
  \<open>NaN\<close> or an exact rational: \<^verbatim>\<open>x <= y\<close> is false as soon as one side is \<open>NaN\<close>, and the
  values that occur (epoch milliseconds divided by 1000) are far inside the range where
  doubles are exact.
\<close>

datatype number = NaN | Num rat

definition number_le :: "number \<Rightarrow> number \<Rightarrow> bool" where
  "number_le a b = (case a of NaN \<Rightarrow> False | Num x \<Rightarrow> (case b of NaN \<Rightarrow> False | Num y \<Rightarrow> x \<le> y))"

definition number_div :: "number \<Rightarrow> rat \<Rightarrow> number" where
  "number_div a k = (case a of NaN \<Rightarrow> NaN | Num x \<Rightarrow> Num (x / k))"

text \<open>
  Calendar arithmetic of the proleptic Gregorian calendar, in days since 1970-01-01.
  \<open>days_from_civil\<close> is the day number of a civil date, \<open>civil_from_days\<close> its inverse
  (400-year eras of 146097 days, centuries of 36524 days, four-year groups of 1461 days).
\<close>

definition days_from_civil :: "int \<Rightarrow> int \<Rightarrow> int \<Rightarrow> int" where
  "days_from_civil y m d =
     (let y' = (if m \<le> 2 then y - 1 else y);
          era = y' div 400;
          yoe = y' - era * 400;
          mp = (if m > 2 then m - 3 else m + 9);
          doy = (153 * mp + 2) div 5 + d - 1;
          doe = yoe * 365 + yoe div 4 - yoe div 100 + doy
      in era * 146097 + doe - 719468)"

definition civil_from_days :: "int \<Rightarrow> int \<times> int \<times> int" where
  "civil_from_days z =
     (let z' = z + 719468;
          era = z' div 146097;
          doe = z' mod 146097;
          c = min 3 (doe div 36524);
          doc = doe - 36524 * c;
          q = min 24 (doc div 1461);
          doq = doc - 1461 * q;
          r = min 3 (doq div 365);
          doy = doq - 365 * r;
          mp = (5 * doy + 2) div 153;
          d = doy - (153 * mp + 2) div 5 + 1;
          m = (if mp < 10 then mp + 3 else mp - 9)
      in (400 * era + 100 * c + 4 * q + r + (if m \<le> 2 then 1 else 0), m, d))"

text \<open>
  Decimal fields: \<open>pad k n\<close> writes the last \<open>k\<close> digits of \<open>n\<close>, \<open>digits k s\<close> reads
  exactly \<open>k\<close> digits from the front of \<open>s\<close> and returns the rest.
\<close>

definition digit_char :: "nat \<Rightarrow> char" where
  "digit_char n = char_of (48 + n)"

definition is_digit :: "char \<Rightarrow> bool" where
  "is_digit c = (48 \<le> (of_char c :: nat) \<and> (of_char c :: nat) \<le> 57)"

definition digit_val :: "char \<Rightarrow> nat" where
  "digit_val c = of_char c - 48"

fun pad :: "nat \<Rightarrow> nat \<Rightarrow> string" where
  "pad 0 n = []"
| "pad (Suc k) n = pad k (n div 10) @ [digit_char (n mod 10)]"

definition digits :: "nat \<Rightarrow> string \<Rightarrow> (nat \<times> string) option" where
  "digits k s =
     (if k \<le> length s \<and> list_all is_digit (take k s)
      then Some (foldl (\<lambda>a c. 10 * a + digit_val c) 0 (take k s), drop k s)
      else None)"

definition expect :: "char \<Rightarrow> string \<Rightarrow> string option" where
  "expect c s = (case s of [] \<Rightarrow> None | x # r \<Rightarrow> if x = c then Some r else None)"

text \<open>
  \<^verbatim>\<open>Date.prototype.toISOString\<close>: \<^verbatim>\<open>YYYY-MM-DDTHH:mm:ss.sssZ\<close>, with the expanded year
  (\<^verbatim>\<open>+YYYYYY\<close> or \<^verbatim>\<open>-YYYYYY\<close>) outside the years 0 to 9999, and a \<open>RangeError\<close> for a
  time value beyond 8.64e15 ms. \<open>iso_date_time s\<close> is the part up to the seconds of the
  instant \<open>s\<close> seconds after the epoch.
\<close>

definition iso_year :: "int \<Rightarrow> string" where
  "iso_year y =
     (if 0 \<le> y \<and> y \<le> 9999 then pad 4 (nat y)
      else (if y < 0 then ''-'' else ''+'') @ pad 6 (nat \<bar>y\<bar>))"

definition iso_time :: "int \<Rightarrow> string" where
  "iso_time t =
     pad 2 (nat (t div 3600)) @ '':'' @ pad 2 (nat (t mod 3600 div 60)) @ '':'' @
     pad 2 (nat (t mod 60))"

definition iso_date_time :: "int \<Rightarrow> string" where
  "iso_date_time s =
     (case civil_from_days (s div 86400) of
        (y, m, d) \<Rightarrow>
          iso_year y @ ''-'' @ pad 2 (nat m) @ ''-'' @ pad 2 (nat d) @ ''T'' @
          iso_time (s mod 86400))"

datatype error = RangeError | TypeError | Thrown string | RequestFailed nat

definition toISOString :: "int \<Rightarrow> error + string" where
  "toISOString ms =
     (if \<bar>ms\<bar> > 8640000000000000 then Inl RangeError
      else Inr (iso_date_time (ms div 1000) @ ''.'' @ pad 3 (nat (ms mod 1000)) @ ''Z''))"

text \<open>
  \<^verbatim>\<open>Date.parse\<close> on the two shapes that occur here: the host's \<^verbatim>\<open>YYYY-MM-DDTHH:MM:SSZ\<close> and
  \<^verbatim>\<open>toISOString\<close>'s form with milliseconds. Fields are range checked (month 1 to 12, day 1
  to 31, hour up to 23, minute and second up to 59) and the result is in milliseconds
  since the epoch. Every other string is \<open>NaN\<close> here; the engine reads more forms (an
  offset \<^verbatim>\<open>+HH:MM\<close> in place of \<^verbatim>\<open>Z\<close>, the time \<^verbatim>\<open>24:00:00\<close>, dates without time), which the
  host does not report.
\<close>

definition fraction :: "string \<Rightarrow> (nat \<times> string) option" where
  "fraction s = (case expect CHR ''.'' s of None \<Rightarrow> Some (0, s) | Some r \<Rightarrow> digits 3 r)"

definition utc_millis :: "nat \<Rightarrow> nat \<Rightarrow> nat \<Rightarrow> nat \<Rightarrow> nat \<Rightarrow> nat \<Rightarrow> nat \<Rightarrow> int option" where
  "utc_millis y m d h mi sec ms =
     (if 1 \<le> m \<and> m \<le> 12 \<and> 1 \<le> d \<and> d \<le> 31 \<and> h \<le> 23 \<and> mi \<le> 59 \<and> sec \<le> 59
      then Some ((((days_from_civil (int y) (int m) (int d) * 24 + int h) * 60 + int mi) * 60
                   + int sec) * 1000 + int ms)
      else None)"

definition parse_iso :: "string \<Rightarrow> int option" where
  "parse_iso s =
     (case digits 4 s of None \<Rightarrow> None | Some (y, r1) \<Rightarrow>
     (case expect CHR ''-'' r1 of None \<Rightarrow> None | Some r2 \<Rightarrow>
     (case digits 2 r2 of None \<Rightarrow> None | Some (m, r3) \<Rightarrow>
     (case expect CHR ''-'' r3 of None \<Rightarrow> None | Some r4 \<Rightarrow>
     (case digits 2 r4 of None \<Rightarrow> None | Some (d, r5) \<Rightarrow>
     (case expect CHR ''T'' r5 of None \<Rightarrow> None | Some r6 \<Rightarrow>
     (case digits 2 r6 of None \<Rightarrow> None | Some (h, r7) \<Rightarrow>
     (case expect CHR '':'' r7 of None \<Rightarrow> None | Some r8 \<Rightarrow>
     (case digits 2 r8 of None \<Rightarrow> None | Some (mi, r9) \<Rightarrow>
     (case expect CHR '':'' r9 of None \<Rightarrow> None | Some r10 \<Rightarrow>
     (case digits 2 r10 of None \<Rightarrow> None | Some (sec, r11) \<Rightarrow>
     (case fraction r11 of None \<Rightarrow> None | Some (ms, r12) \<Rightarrow>
        if r12 = ''Z'' then utc_millis y m d h mi sec ms else None))))))))))))"

definition Date_parse :: "string \<Rightarrow> number" where
  "Date_parse s = (case parse_iso s of None \<Rightarrow> NaN | Some ms \<Rightarrow> Num (of_int ms))"

section \<open>The version-control host\<close>

text \<open>
  The repository on the host, as far as the engine's calls observe it. A commit object is
  identified with its content, as a collision-free hash would: the value of the \<^verbatim>\<open>sha\<close> of a
  commit is the commit, its \<open>parents\<close> are commits again, and a tree is the association
  list from paths to file contents. \<open>history\<close> is the branch listing from a head commit
  along first parents, newest first. A \<open>git_user\<close> is the author or committer entry of the
  API, its \<open>date\<close> the ISO string the API reports.
\<close>

record git_user =
  name :: string
  email :: string
  date :: string

type_synonym git_tree = "(string \<times> string) list"

datatype git_commit = GitCommit (message: string) (author: git_user) (committer: git_user)
  (tree: git_tree) (parents: "git_commit list")

fun history :: "git_commit \<Rightarrow> git_commit list" where
  "history (GitCommit msg a c t []) = [GitCommit msg a c t []]"
| "history (GitCommit msg a c t (p # ps)) = GitCommit msg a c t (p # ps) # history p"

record github =
  head :: "git_commit option"
  default_branch :: string

fun upsert :: "git_tree \<Rightarrow> string \<times> string \<Rightarrow> git_tree" where
  "upsert [] e = [e]"
| "upsert ((p, c) # t) e = (if p = fst e then e # t else (p, c) # upsert t e)"

text \<open>
  The host keeps commit dates to the second: \<open>github_date\<close> is the date string it reports
  for a date string a client sent (\<open>None\<close> when it cannot read the date).
\<close>

definition github_date :: "string \<Rightarrow> string option" where
  "github_date d =
     (case parse_iso d of
        None \<Rightarrow> None
      | Some ms \<Rightarrow> Some (iso_date_time (ms div 1000) @ ''Z''))"

section \<open>The submission source\<close>

text \<open>
  The account on the problem-solving platform: all submissions, newest first, and the
  questions by slug. One record per submission carries what the listing query exposes
  (\<open>sub_id\<close>, \<open>titleSlug\<close>, \<open>timestamp\<close>, \<open>statusDisplay\<close>) and what the detail query
  exposes (\<open>timestamp\<close>, \<open>lang_name\<close>, \<open>code\<close>, \<open>runtimeDisplay\<close>, \<open>memoryDisplay\<close>); the
  timestamp is the same datum in both. The listing sends it as a decimal string, which
  \<^verbatim>\<open>Number(...)\<close> reads back.
\<close>

record lc_submission =
  sub_id :: nat
  titleSlug :: string
  timestamp :: int
  statusDisplay :: string
  lang_name :: string
  code :: string
  runtimeDisplay :: string
  memoryDisplay :: string

record lc_question =
  title :: string
  content :: string
  difficulty :: string
  topicTags :: "string list"

record leetcode =
  all_submissions :: "lc_submission list"
  questions :: "(string \<times> lc_question) list"

record submissionList =
  hasNext :: bool
  submissions :: "lc_submission list"

section \<open>The world a run acts on\<close>

text \<open>
  Every network call takes the world and returns the world with its result: \<open>Inl\<close> an
  error, \<open>Inr\<close> the value. \<open>faults\<close> is the script of the network: each request consumes
  one entry, \<open>Some code\<close> makes that request fail with \<open>RequestFailed code\<close>, \<open>None\<close> or
  an exhausted script lets it through. \<open>trace\<close> records every request attempt and every
  \<^verbatim>\<open>delay(ms)\<close>, in order. Logging (\<^verbatim>\<open>log\<close>, \<^verbatim>\<open>console.log\<close>) has no effect on the result
  and is left out. The credentials and the owner/repo pair select the world and do not
  appear otherwise.
\<close>

datatype event =
  Delay nat
  | ListCommits | ReposGet | CreateTree | CreateCommit | UpdateRef
  | PostSubmissionList nat | PostSubmissionDetails nat | PostQuestion string

record world =
  github :: github
  leetcode :: leetcode
  faults :: "nat option list"
  trace :: "event list"

definition request :: "event \<Rightarrow> world \<Rightarrow> (error + unit) \<times> world" where
  "request ev w =
     (let w' = w\<lparr>trace := trace w @ [ev]\<rparr>
      in case faults w of
           [] \<Rightarrow> (Inr (), w')
         | None # fs \<Rightarrow> (Inr (), w'\<lparr>faults := fs\<rparr>)
         | Some e # fs \<Rightarrow> (Inl (RequestFailed e), w'\<lparr>faults := fs\<rparr>))"

definition delay :: "nat \<Rightarrow> world \<Rightarrow> world" where
  "delay ms w = w\<lparr>trace := trace w @ [Delay ms]\<rparr>"

text \<open>
  The host's API. \<^verbatim>\<open>repos.listCommits\<close> with \<^verbatim>\<open>per_page: 100\<close> returns the first 100 entries
  of the branch history (the empty list for a repository without commits);
  \<^verbatim>\<open>git.createCommit\<close> stores the dates as the host keeps them and refuses (422) a date it
  cannot read; \<^verbatim>\<open>git.updateRef\<close> with \<^verbatim>\<open>force: true\<close> moves the default branch.
\<close>

definition listCommits :: "world \<Rightarrow> (error + git_commit list) \<times> world" where
  "listCommits w =
     (case request ListCommits w of
        (Inl e, w') \<Rightarrow> (Inl e, w')
      | (Inr _, w') \<Rightarrow>
          (Inr (case head (github w') of None \<Rightarrow> [] | Some h \<Rightarrow> take 100 (history h)), w'))"

definition repos_get :: "world \<Rightarrow> (error + string) \<times> world" where
  "repos_get w =
     (case request ReposGet w of
        (Inl e, w') \<Rightarrow> (Inl e, w')
      | (Inr _, w') \<Rightarrow> (Inr (default_branch (github w')), w'))"

definition createTree :: "git_tree \<Rightarrow> (string \<times> string) list \<Rightarrow> world \<Rightarrow> (error + git_tree) \<times> world" where
  "createTree base_tree entries w =
     (case request CreateTree w of
        (Inl e, w') \<Rightarrow> (Inl e, w')
      | (Inr _, w') \<Rightarrow> (Inr (foldl upsert base_tree entries), w'))"

definition createCommit ::
  "string \<Rightarrow> git_tree \<Rightarrow> git_commit list \<Rightarrow> git_user \<Rightarrow> git_user \<Rightarrow> world
     \<Rightarrow> (error + git_commit) \<times> world" where
  "createCommit msg t ps a c w =
     (case request CreateCommit w of
        (Inl e, w') \<Rightarrow> (Inl e, w')
      | (Inr _, w') \<Rightarrow>
          (case (github_date (date a), github_date (date c)) of
             (Some da, Some dc) \<Rightarrow> (Inr (GitCommit msg (a\<lparr>date := da\<rparr>) (c\<lparr>date := dc\<rparr>) t ps), w')
           | _ \<Rightarrow> (Inl (RequestFailed 422), w')))"

definition updateRef :: "string \<Rightarrow> git_commit \<Rightarrow> world \<Rightarrow> (error + unit) \<times> world" where
  "updateRef ref c w =
     (case request UpdateRef w of
        (Inl e, w') \<Rightarrow> (Inl e, w')
      | (Inr _, w') \<Rightarrow>
          (if ref = ''heads/'' @ default_branch (github w')
           then (Inr (), w'\<lparr>github := (github w')\<lparr>head := Some c\<rparr>\<rparr>)
           else (Inl (RequestFailed 422), w')))"

text \<open>
  The platform's GraphQL queries: \<^verbatim>\<open>submissionList(offset, limit)\<close>,
  \<^verbatim>\<open>submissionDetails(submissionId)\<close> and \<^verbatim>\<open>question(titleSlug)\<close>. The last two answer
  \<^verbatim>\<open>null\<close> (\<open>None\<close>) for an unknown id or slug.
\<close>

definition post_submissionList :: "nat \<Rightarrow> nat \<Rightarrow> world \<Rightarrow> (error + submissionList) \<times> world" where
  "post_submissionList offset limit w =
     (case request (PostSubmissionList offset) w of
        (Inl e, w') \<Rightarrow> (Inl e, w')
      | (Inr _, w') \<Rightarrow>
          (Inr \<lparr>hasNext = offset + limit < length (all_submissions (leetcode w')),
                submissions = take limit (drop offset (all_submissions (leetcode w')))\<rparr>, w'))"

definition post_submissionDetails :: "nat \<Rightarrow> world \<Rightarrow> (error + lc_submission option) \<times> world" where
  "post_submissionDetails i w =
     (case request (PostSubmissionDetails i) w of
        (Inl e, w') \<Rightarrow> (Inl e, w')
      | (Inr _, w') \<Rightarrow> (Inr (find (\<lambda>s. sub_id s = i) (all_submissions (leetcode w'))), w'))"

definition post_question :: "string \<Rightarrow> world \<Rightarrow> (error + lc_question option) \<times> world" where
  "post_question slug w =
     (case request (PostQuestion slug) w of
        (Inl e, w') \<Rightarrow> (Inl e, w')
      | (Inr _, w') \<Rightarrow> (Inr (map_of (questions (leetcode w')) slug), w'))"

section \<open>The sync engine\<close>

text \<open>
  The constants and functions of \<^verbatim>\<open>src/test_config.js\<close>, under their names there.
  \<open>submission_ref\<close> is the object \<^verbatim>\<open>{id, titleSlug}\<close> that \<^verbatim>\<open>addToSubmissions\<close> pushes,
  \<open>submission\<close> the object that \<^verbatim>\<open>sync\<close> builds for \<^verbatim>\<open>commit\<close>. The two external
  collaborators, \<^verbatim>\<open>NodeHtmlMarkdown.translate\<close> and \<^verbatim>\<open>sprightly\<close> with the README template,
  are parameters.
\<close>

definition COMMIT_MESSAGE :: string where
  "COMMIT_MESSAGE = ''[''"

definition LANG_TO_EXTENSION :: "(string \<times> string) list" where
  "LANG_TO_EXTENSION = [(''golang'', ''go'')]"

text \<open>
  \<^verbatim>\<open>LANG_TO_EXTENSION[submission.lang]\<close> is a property lookup on an object literal. It finds
  the entries of the table and, for the twelve property names that every object inherits
  from \<^verbatim>\<open>Object.prototype\<close>, the inherited value: a built-in function, or the prototype
  itself for \<^verbatim>\<open>__proto__\<close>. Each of these values is truthy, so that the check of \<^verbatim>\<open>commit\<close>
  lets it pass; \<open>Object_prototype\<close> gives it as the text it becomes in the template string
  of the file path. \<open>extension_of\<close> is the lookup, \<open>None\<close> for \<^verbatim>\<open>undefined\<close>.
\<close>

definition native :: "string \<Rightarrow> string" where
  "native f = ''function '' @ f @ ''() { [native code] }''"

definition Object_prototype :: "(string \<times> string) list" where
  "Object_prototype =
     [(''constructor'', native ''Object''),
      (''__defineGetter__'', native ''__defineGetter__''),
      (''__defineSetter__'', native ''__defineSetter__''),
      (''hasOwnProperty'', native ''hasOwnProperty''),
      (''__lookupGetter__'', native ''__lookupGetter__''),
      (''__lookupSetter__'', native ''__lookupSetter__''),
      (''isPrototypeOf'', native ''isPrototypeOf''),
      (''propertyIsEnumerable'', native ''propertyIsEnumerable''),
      (''toString'', native ''toString''),
      (''valueOf'', native ''valueOf''),
      (''__proto__'', ''[object Object]''),
      (''toLocaleString'', native ''toLocaleString'')]"

definition extension_of :: "string \<Rightarrow> string option" where
  "extension_of lang = map_of (LANG_TO_EXTENSION @ Object_prototype) lang"

definition startsWith :: "string \<Rightarrow> string \<Rightarrow> bool" where
  "startsWith s p = (take (length p) s = p)"

fun join :: "string \<Rightarrow> string list \<Rightarrow> string" where
  "join sep [] = []"
| "join sep [x] = x"
| "join sep (x # y # ys) = x @ sep @ join sep (y # ys)"

record submission_ref =
  ref_id :: nat
  ref_titleSlug :: string

record submission =
  s_id :: nat
  s_slug :: string
  s_title :: string
  s_lang :: string
  s_timestamp :: int
  s_code :: string
  s_question :: string
  s_difficulty :: string
  s_tags :: "string list"
  s_runtimeDisplay :: string
  s_memoryDisplay :: string
  s_readme :: string

record collaborators =
  translate :: "string \<Rightarrow> string"
  sprightly :: "submission \<Rightarrow> string"

text \<open>
  \<^verbatim>\<open>commit(params)\<close>: the extension check (no value that the lookup finds is falsy, so it
  fails exactly on \<^verbatim>\<open>undefined\<close>) comes before any request; then the tree, the
  commit (author and committer are name and email of \<^verbatim>\<open>commitInfo\<close> with the submission's
  ISO date) and the forced update of \<^verbatim>\<open>heads/<defaultBranch>\<close>. It returns the new tree
  and commit.
\<close>

definition commit ::
  "string \<Rightarrow> git_user \<Rightarrow> git_tree \<Rightarrow> git_commit \<Rightarrow> submission \<Rightarrow> world
     \<Rightarrow> (error + git_tree \<times> git_commit) \<times> world" where
  "commit defaultBranch commitInfo treeSHA latestCommitSHA sb w =
     (case extension_of (s_lang sb) of
        None \<Rightarrow>
          (Inl (Thrown (''Language '' @ s_lang sb @ '' does not have a registered extension.'')), w)
      | Some ext \<Rightarrow>
          (case createTree treeSHA
                  [(s_title sb @ ''/'' @ s_slug sb @ ''.'' @ ext, s_code sb),
                   (s_title sb @ ''/README.md'', s_readme sb)] w of
             (Inl e, w1) \<Rightarrow> (Inl e, w1)
           | (Inr treeResponse, w1) \<Rightarrow>
               (case toISOString (s_timestamp sb * 1000) of
                  Inl e \<Rightarrow> (Inl e, w1)
                | Inr d \<Rightarrow>
                    (case createCommit
                            (COMMIT_MESSAGE @ s_difficulty sb @ ''] ['' @ join '','' (s_tags sb) @
                             ''] ['' @ s_runtimeDisplay sb @ ''] ['' @ s_memoryDisplay sb @ '']'')
                            treeResponse [latestCommitSHA]
                            \<lparr>name = name commitInfo, email = email commitInfo, date = d\<rparr>
                            \<lparr>name = name commitInfo, email = email commitInfo, date = d\<rparr> w1 of
                       (Inl e, w2) \<Rightarrow> (Inl e, w2)
                     | (Inr commitResponse, w2) \<Rightarrow>
                         (case updateRef (''heads/'' @ defaultBranch) commitResponse w2 of
                            (Inl e, w3) \<Rightarrow> (Inl e, w3)
                          | (Inr _, w3) \<Rightarrow> (Inr (treeResponse, commitResponse), w3))))))"

text \<open>
  \<^verbatim>\<open>addToSubmissions\<close>: the loop over one page. The result is the returned flag together
  with the list \<^verbatim>\<open>submissions\<close> after the pushes.
\<close>

fun addToSubmissions ::
  "lc_submission list \<Rightarrow> submission_ref list \<Rightarrow> number \<Rightarrow> bool \<times> submission_ref list" where
  "addToSubmissions [] sbs mostRecentTimestamp = (True, sbs)"
| "addToSubmissions (e # es) sbs mostRecentTimestamp =
     (if number_le (Num (of_int (timestamp e))) mostRecentTimestamp then (False, sbs)
      else if statusDisplay e \<noteq> ''Accepted'' then addToSubmissions es sbs mostRecentTimestamp
      else addToSubmissions es (sbs @ [\<lparr>ref_id = sub_id e, ref_titleSlug = titleSlug e\<rparr>])
             mostRecentTimestamp)"

text \<open>
  The checkpoint scan at the start of \<^verbatim>\<open>sync\<close>: \<^verbatim>\<open>commitInfo\<close> starts as the author of
  the last fetched commit (a \<open>TypeError\<close> when nothing was fetched), \<^verbatim>\<open>mostRecentTimestamp\<close>
  as 0, and the loop over the commits stops at the first message that starts with
  \<^verbatim>\<open>COMMIT_MESSAGE\<close>.
\<close>

fun scanCommits :: "git_commit list \<Rightarrow> git_user \<times> number \<Rightarrow> git_user \<times> number" where
  "scanCommits [] acc = acc"
| "scanCommits (c # cs) acc =
     (if \<not> startsWith (message c) COMMIT_MESSAGE then scanCommits cs acc
      else (author c, number_div (Date_parse (date (committer c))) 1000))"

definition resolveCheckpoint :: "git_commit list \<Rightarrow> error + git_user \<times> number" where
  "resolveCheckpoint commits =
     (if commits = [] then Inl TypeError
      else Inr (scanCommits commits (author (commits ! (length commits - 1)), Num 0)))"

text \<open>
  The retrying closures: \<^verbatim>\<open>getSubmissions(maxRetries, retryCount)\<close> inside \<^verbatim>\<open>sync\<close> and
  \<^verbatim>\<open>getInfo\<close> inside \<^verbatim>\<open>getSubmissionData\<close>. \<^verbatim>\<open>getQuestionData\<close> has no such closure: its
  \<^verbatim>\<open>catch\<close> prints the error and the function returns \<^verbatim>\<open>undefined\<close>, here the outer
  \<open>None\<close>.
\<close>

function getSubmissions :: "nat \<Rightarrow> nat \<Rightarrow> nat \<Rightarrow> world \<Rightarrow> (error + submissionList) \<times> world" where
  "getSubmissions offset maxRetries retryCount w =
     (case post_submissionList offset 20 w of
        (Inr response, w1) \<Rightarrow> (Inr response, w1)
      | (Inl exception, w1) \<Rightarrow>
          (if retryCount \<ge> maxRetries then (Inl exception, w1)
           else getSubmissions offset maxRetries (retryCount + 1)
                  (delay (3 ^ retryCount * 1000) w1)))"
  by pat_completeness auto
termination
  by (relation "measure (\<lambda>(offset, maxRetries, retryCount, w). Suc maxRetries - retryCount)") auto

declare getSubmissions.simps [simp del]

function getInfo :: "nat \<Rightarrow> nat \<Rightarrow> nat \<Rightarrow> world \<Rightarrow> (error + lc_submission option) \<times> world" where
  "getInfo i maxRetries retryCount w =
     (case post_submissionDetails i w of
        (Inr response, w1) \<Rightarrow> (Inr response, w1)
      | (Inl exception, w1) \<Rightarrow>
          (if retryCount \<ge> maxRetries then (Inl exception, w1)
           else getInfo i maxRetries (retryCount + 1) (delay (3 ^ retryCount * 1000) w1)))"
  by pat_completeness auto
termination
  by (relation "measure (\<lambda>(i, maxRetries, retryCount, w). Suc maxRetries - retryCount)") auto

declare getInfo.simps [simp del]

definition getSubmissionData :: "nat \<Rightarrow> world \<Rightarrow> (error + lc_submission option) \<times> world" where
  "getSubmissionData i w = getInfo i 5 0 w"

definition getQuestionData :: "string \<Rightarrow> world \<Rightarrow> lc_question option option \<times> world" where
  "getQuestionData slug w =
     (case post_question slug w of
        (Inr response, w1) \<Rightarrow> (Some response, w1)
      | (Inl err, w1) \<Rightarrow> (None, w1))"

text \<open>
  The listing loop of \<^verbatim>\<open>sync\<close> ends because the platform's data do not change under the
  engine's requests and \<^verbatim>\<open>hasNext\<close> is false on the last page.
\<close>

lemma request_leetcode: "request ev w = (r, w') \<Longrightarrow> leetcode w' = leetcode w"
  by (auto simp: request_def Let_def split: list.splits option.splits)

lemma getSubmissions_leetcode:
  "getSubmissions offset maxRetries retryCount w = (r, w') \<Longrightarrow> leetcode w' = leetcode w"
proof (induction offset maxRetries retryCount w rule: getSubmissions.induct)
  case (1 offset maxRetries retryCount w)
  obtain r1 w1 where p: "post_submissionList offset 20 w = (r1, w1)"
    by (cases "post_submissionList offset 20 w")
  then have l1: "leetcode w1 = leetcode w"
    by (auto simp: post_submissionList_def split: prod.splits sum.splits dest: request_leetcode)
  show ?case
  proof (cases r1)
    case (Inr response)
    with p "1.prems" l1 show ?thesis
      by (simp add: getSubmissions.simps [of offset maxRetries retryCount w])
  next
    case (Inl exception)
    show ?thesis
    proof (cases "retryCount \<ge> maxRetries")
      case True
      with p Inl "1.prems" l1 show ?thesis
        by (simp add: getSubmissions.simps [of offset maxRetries retryCount w])
    next
      case False
      with p Inl "1.prems" have
        "getSubmissions offset maxRetries (retryCount + 1) (delay (3 ^ retryCount * 1000) w1) = (r, w')"
        by (simp add: getSubmissions.simps [of offset maxRetries retryCount w])
      from "1.IH" [OF p [symmetric] Inl False this] l1 show ?thesis
        by (simp add: delay_def)
    qed
  qed
qed

lemma getSubmissions_hasNext:
  "getSubmissions offset maxRetries retryCount w = (Inr response, w') \<Longrightarrow>
     hasNext response = (offset + 20 < length (all_submissions (leetcode w)))
     \<and> submissions response = take 20 (drop offset (all_submissions (leetcode w)))"
proof (induction offset maxRetries retryCount w rule: getSubmissions.induct)
  case (1 offset maxRetries retryCount w)
  obtain r1 w1 where p: "post_submissionList offset 20 w = (r1, w1)"
    by (cases "post_submissionList offset 20 w")
  then have l1: "leetcode w1 = leetcode w"
    by (auto simp: post_submissionList_def split: prod.splits sum.splits dest: request_leetcode)
  show ?case
  proof (cases r1)
    case (Inr resp)
    with p "1.prems" have "response = resp"
      by (simp add: getSubmissions.simps [of offset maxRetries retryCount w])
    moreover from p Inr have
      "hasNext resp = (offset + 20 < length (all_submissions (leetcode w)))
       \<and> submissions resp = take 20 (drop offset (all_submissions (leetcode w)))"
      by (auto simp: post_submissionList_def split: prod.splits sum.splits dest: request_leetcode)
    ultimately show ?thesis by simp
  next
    case (Inl exception)
    show ?thesis
    proof (cases "retryCount \<ge> maxRetries")
      case True
      with p Inl "1.prems" show ?thesis
        by (simp add: getSubmissions.simps [of offset maxRetries retryCount w])
    next
      case False
      with p Inl "1.prems" have
        "getSubmissions offset maxRetries (retryCount + 1) (delay (3 ^ retryCount * 1000) w1)
           = (Inr response, w')"
        by (simp add: getSubmissions.simps [of offset maxRetries retryCount w])
      from "1.IH" [OF p [symmetric] Inl False this] l1 show ?thesis
        by (simp add: delay_def)
    qed
  qed
qed

text \<open>
  The \<^verbatim>\<open>do ... while\<close> loop of \<^verbatim>\<open>sync\<close>. \<open>first\<close> is the test \<^verbatim>\<open>response === null\<close>: it
  selects the retry budget (0 or 5) and whether the one second delay precedes the request.
\<close>

function fetchSubmissions ::
  "bool \<Rightarrow> nat \<Rightarrow> submission_ref list \<Rightarrow> number \<Rightarrow> world
     \<Rightarrow> (error + submission_ref list) \<times> world" where
  "fetchSubmissions first offset sbs mostRecentTimestamp w =
     (case getSubmissions offset (if first then 0 else 5) 0 (if first then w else delay 1000 w) of
        (Inl e, w1) \<Rightarrow> (Inl e, w1)
      | (Inr response, w1) \<Rightarrow>
          (case addToSubmissions (submissions response) sbs mostRecentTimestamp of
             (False, sbs') \<Rightarrow> (Inr sbs', w1)
           | (True, sbs') \<Rightarrow>
               (if hasNext response
                then fetchSubmissions False (offset + 20) sbs' mostRecentTimestamp w1
                else (Inr sbs', w1))))"
  by pat_completeness auto
termination
proof (relation "measure (\<lambda>(first, offset, sbs, mrt, w).
                   length (all_submissions (leetcode w)) - offset)", goal_cases)
  case 1
  show ?case by simp
next
  case (2 first offset sbs mrt w x1 w1 response x2 sbs')
  from 2(1) 2(2) have g: "getSubmissions offset (if first then 0 else 5) 0
      (if first then w else delay 1000 w) = (Inr response, w1)"
    by simp
  have "leetcode (if first then w else delay 1000 w) = leetcode w"
    by (simp add: delay_def)
  with getSubmissions_leetcode [OF g] getSubmissions_hasNext [OF g] 2(5)
  have "leetcode w1 = leetcode w" "offset + 20 < length (all_submissions (leetcode w))"
    by simp_all
  then show ?case by simp
qed

declare fetchSubmissions.simps [simp del]

text \<open>
  The body of the \<^verbatim>\<open>for\<close> loop of \<^verbatim>\<open>sync\<close> for one entry, and the loop itself, which walks
  the collected list from its last index down to 0. Reading a property of \<^verbatim>\<open>undefined\<close> or
  \<^verbatim>\<open>null\<close> is a \<open>TypeError\<close>.
\<close>

definition syncSubmission ::
  "collaborators \<Rightarrow> string \<Rightarrow> git_user \<Rightarrow> submission_ref \<Rightarrow> git_tree \<times> git_commit \<Rightarrow> world
     \<Rightarrow> (error + git_tree \<times> git_commit) \<times> world" where
  "syncSubmission cb defaultBranch commitInfo sref ptr w =
     (case getSubmissionData (ref_id sref) w of
        (Inl e, w1) \<Rightarrow> (Inl e, w1)
      | (Inr submissionData, w1) \<Rightarrow>
          (case getQuestionData (ref_titleSlug sref) w1 of
             (None, w2) \<Rightarrow> (Inl TypeError, w2)
           | (Some None, w2) \<Rightarrow> (Inl TypeError, w2)
           | (Some (Some q), w2) \<Rightarrow>
               (case submissionData of
                  None \<Rightarrow> (Inl TypeError, w2)
                | Some d \<Rightarrow>
                    (let sb = \<lparr>s_id = ref_id sref, s_slug = ref_titleSlug sref, s_title = title q,
                               s_lang = lang_name d, s_timestamp = timestamp d, s_code = code d,
                               s_question = translate cb (content q),
                               s_difficulty = difficulty q, s_tags = topicTags q,
                               s_runtimeDisplay = runtimeDisplay d,
                               s_memoryDisplay = memoryDisplay d, s_readme = []\<rparr>
                     in commit defaultBranch commitInfo (fst ptr) (snd ptr)
                          (sb\<lparr>s_readme := sprightly cb sb\<rparr>) w2))))"

fun commitLoop ::
  "collaborators \<Rightarrow> string \<Rightarrow> git_user \<Rightarrow> submission_ref list \<Rightarrow> nat \<Rightarrow> git_tree \<times> git_commit
     \<Rightarrow> world \<Rightarrow> (error + git_tree \<times> git_commit) \<times> world" where
  "commitLoop cb defaultBranch commitInfo sbs 0 ptr w = (Inr ptr, w)"
| "commitLoop cb defaultBranch commitInfo sbs (Suc i) ptr w =
     (case syncSubmission cb defaultBranch commitInfo (sbs ! i) ptr w of
        (Inl e, w') \<Rightarrow> (Inl e, w')
      | (Inr ptr', w') \<Rightarrow> commitLoop cb defaultBranch commitInfo sbs i ptr' w')"

definition sync :: "collaborators \<Rightarrow> world \<Rightarrow> (error + unit) \<times> world" where
  "sync cb w =
     (case listCommits w of
        (Inl e, w1) \<Rightarrow> (Inl e, w1)
      | (Inr commits, w1) \<Rightarrow>
          (case resolveCheckpoint commits of
             Inl e \<Rightarrow> (Inl e, w1)
           | Inr (commitInfo, mostRecentTimestamp) \<Rightarrow>
               (case fetchSubmissions True 0 [] mostRecentTimestamp w1 of
                  (Inl e, w2) \<Rightarrow> (Inl e, w2)
                | (Inr sbs, w2) \<Rightarrow>
                    (case repos_get w2 of
                       (Inl e, w3) \<Rightarrow> (Inl e, w3)
                     | (Inr defaultBranch, w3) \<Rightarrow>
                         (case commits of
                            [] \<Rightarrow> (Inl TypeError, w3)
                          | c0 # _ \<Rightarrow>
                              (case commitLoop cb defaultBranch commitInfo sbs (length sbs)
                                      (tree c0, c0) w3 of
                                 (Inl e, w4) \<Rightarrow> (Inl e, w4)
                               | (Inr _, w4) \<Rightarrow> (Inr (), w4)))))))"

section \<open>Definitions for the statements, and example data\<close>

text \<open>
  Nothing below changes the model above: these are the predicates and pure functions in
  which the properties are stated, and the concrete worlds on which they are instantiated.
\<close>

text \<open>
  The two tests of \<^verbatim>\<open>addToSubmissions\<close> as predicates, and the object it pushes:
  \<open>newer m e\<close> is the negation of \<^verbatim>\<open>submissionTimestamp <= mostRecentTimestamp\<close>.
\<close>

definition newer :: "number \<Rightarrow> lc_submission \<Rightarrow> bool" where
  "newer mostRecentTimestamp e = (\<not> number_le (Num (of_int (timestamp e))) mostRecentTimestamp)"

definition accepted :: "lc_submission \<Rightarrow> bool" where
  "accepted e = (statusDisplay e = ''Accepted'')"

definition ref_of :: "lc_submission \<Rightarrow> submission_ref" where
  "ref_of e = \<lparr>ref_id = sub_id e, ref_titleSlug = titleSlug e\<rparr>"

text \<open>
  Example data: a submission record, the page of the early-exit example, and a world
  whose repository holds one hand-made commit by Ann.
\<close>

definition entry :: "nat \<Rightarrow> string \<Rightarrow> int \<Rightarrow> string \<Rightarrow> string \<Rightarrow> lc_submission" where
  "entry i slug ts status lg =
     \<lparr>sub_id = i, titleSlug = slug, timestamp = ts, statusDisplay = status, lang_name = lg,
      code = ''package main'', runtimeDisplay = ''3 ms'', memoryDisplay = ''2 MB''\<rparr>"

definition example_page :: "lc_submission list" where
  "example_page = [entry 4 ''d'' 50 ''Accepted'' ''golang'', entry 3 ''c'' 40 ''Accepted'' ''golang'',
                   entry 2 ''b'' 30 ''Accepted'' ''golang'', entry 1 ''a'' 20 ''Accepted'' ''golang'']"

definition example_user :: git_user where
  "example_user = \<lparr>name = ''Ann'', email = ''ann@example.org'', date = ''2020-05-05T10:00:00Z''\<rparr>"

definition example_world :: "lc_submission list \<Rightarrow> nat option list \<Rightarrow> world" where
  "example_world sbs fs =
     \<lparr>github = \<lparr>head = Some (GitCommit ''Initial commit'' example_user example_user [] []),
                 default_branch = ''main''\<rparr>,
      leetcode = \<lparr>all_submissions = sbs,
                   questions = [(''two-sum'', \<lparr>title = ''Two Sum'', content = ''<p>sum</p>'',
                                  difficulty = ''Easy'', topicTags = [''Array'', ''Hash Table'']\<rparr>)]\<rparr>,
      faults = fs, trace = []\<rparr>"

text \<open>
  The test of the checkpoint scan on one commit.
\<close>

definition is_sync_commit :: "git_commit \<Rightarrow> bool" where
  "is_sync_commit c = startsWith (message c) COMMIT_MESSAGE"

text \<open>
  The message and the two tree entries that \<^verbatim>\<open>commit\<close> builds; \<^verbatim>\<open>${submission.tags}\<close> joins
  the tags with commas.
\<close>

definition commit_message :: "submission \<Rightarrow> string" where
  "commit_message sb =
     ''['' @ s_difficulty sb @ ''] ['' @ join '','' (s_tags sb) @ ''] ['' @ s_runtimeDisplay sb @
     ''] ['' @ s_memoryDisplay sb @ '']''"

definition tree_entries :: "string \<Rightarrow> submission \<Rightarrow> (string \<times> string) list" where
  "tree_entries ext sb =
     [(s_title sb @ ''/'' @ s_slug sb @ ''.'' @ ext, s_code sb),
      (s_title sb @ ''/README.md'', s_readme sb)]"

text \<open>
  What the platform answers for the page at an offset; the requests and delays that
  \<open>k\<close> failed attempts leave in the trace; and what the listing loop does with a page
  once it has it.
\<close>

definition page_at :: "leetcode \<Rightarrow> nat \<Rightarrow> submissionList" where
  "page_at lc offset =
     \<lparr>hasNext = offset + 20 < length (all_submissions lc),
      submissions = take 20 (drop offset (all_submissions lc))\<rparr>"

definition retry_trace :: "event \<Rightarrow> nat \<Rightarrow> nat \<Rightarrow> event list" where
  "retry_trace ev retryCount k =
     concat (map (\<lambda>i. [ev, Delay (3 ^ (retryCount + i) * 1000)]) [0..<k])"

definition fetch_continue ::
  "nat \<Rightarrow> submission_ref list \<Rightarrow> number \<Rightarrow> submissionList \<Rightarrow> world
     \<Rightarrow> (error + submission_ref list) \<times> world" where
  "fetch_continue offset sbs mrt response w1 =
     (case addToSubmissions (submissions response) sbs mrt of
        (False, sbs') \<Rightarrow> (Inr sbs', w1)
      | (True, sbs') \<Rightarrow>
          (if hasNext response then fetchSubmissions False (offset + 20) sbs' mrt w1
           else (Inr sbs', w1)))"

text \<open>
  The string that \<^verbatim>\<open>commit\<close> throws for a language without extension.
\<close>

definition not_registered :: "string \<Rightarrow> error" where
  "not_registered lg = Thrown (''Language '' @ lg @ '' does not have a registered extension.'')"

text \<open>
  The requests that write to the host.
\<close>

fun host_write :: "event \<Rightarrow> bool" where
  "host_write CreateTree = True"
| "host_write CreateCommit = True"
| "host_write UpdateRef = True"
| "host_write ev = False"

text \<open>
  More example data: collaborators, a single pending submission, a sync commit of
  2023-01-01, hand-made commits, and a world whose newest commit is that sync commit.
\<close>

definition example_collaborators :: collaborators where
  "example_collaborators = \<lparr>translate = (\<lambda>html. html), sprightly = (\<lambda>sb. ''# '' @ s_title sb)\<rparr>"

definition one_submission :: "lc_submission list" where
  "one_submission = [entry 1 ''two-sum'' 1672531200 ''Accepted'' ''golang'']"

definition sync_commit_2023 :: git_commit where
  "sync_commit_2023 =
     GitCommit ''[Easy] [Array] [3 ms] [2 MB]''
       \<lparr>name = ''Ann'', email = ''ann@example.org'', date = ''2023-01-01T00:00:00Z''\<rparr>
       \<lparr>name = ''Ann'', email = ''ann@example.org'', date = ''2023-01-01T00:00:00Z''\<rparr> [] []"

definition plain_commit :: "string \<Rightarrow> string \<Rightarrow> git_commit" where
  "plain_commit msg who =
     GitCommit msg \<lparr>name = who, email = who @ ''@example.org'', date = ''2023-02-02T00:00:00Z''\<rparr>
       \<lparr>name = who, email = who @ ''@example.org'', date = ''2023-02-02T00:00:00Z''\<rparr> [] []"

definition rust_then_go :: "lc_submission list" where
  "rust_then_go = [entry 2 ''two-sum'' 1672617600 ''Accepted'' ''rust'',
                   entry 1 ''two-sum'' 1672531200 ''Accepted'' ''golang'']"

definition synced_world :: "lc_submission list \<Rightarrow> nat option list \<Rightarrow> world" where
  "synced_world sbs fs =
     \<lparr>github = \<lparr>head = Some sync_commit_2023, default_branch = ''main''\<rparr>,
      leetcode = \<lparr>all_submissions = sbs,
                   questions = [(''two-sum'', \<lparr>title = ''Two Sum'', content = ''<p>sum</p>'',
                                  difficulty = ''Easy'', topicTags = [''Array'', ''Hash Table'']\<rparr>)]\<rparr>,
      faults = fs, trace = []\<rparr>"

text \<open>
  A pending submission whose language name is \<^verbatim>\<open>constructor\<close>, a name without entry in the
  table that every object inherits.
\<close>

definition constructor_then_go :: "lc_submission list" where
  "constructor_then_go = [entry 2 ''two-sum'' 1672617600 ''Accepted'' ''constructor'',
                          entry 1 ''two-sum'' 1672531200 ''Accepted'' ''golang'']"

text \<open>
  The commit loop without the network, for comparison with the code: \<open>enrich\<close> is the
  \<^verbatim>\<open>submission\<close> object the loop body builds from the platform's data, \<open>next_commit\<close> the
  tree and commit that \<^verbatim>\<open>commit\<close> creates on top of a tree/commit pair, \<open>commit_chain\<close> the
  pair after a list of entries taken in order (\<open>None\<close> when one of them cannot be
  committed), and \<open>created\<close> the commits made on the way, oldest first.
\<close>

definition enrich :: "collaborators \<Rightarrow> leetcode \<Rightarrow> submission_ref \<Rightarrow> submission option" where
  "enrich cb lc r =
     (case find (\<lambda>s. sub_id s = ref_id r) (all_submissions lc) of
        None \<Rightarrow> None
      | Some d \<Rightarrow>
          (case map_of (questions lc) (ref_titleSlug r) of
             None \<Rightarrow> None
           | Some q \<Rightarrow>
               Some (let sb = \<lparr>s_id = ref_id r, s_slug = ref_titleSlug r, s_title = title q,
                               s_lang = lang_name d, s_timestamp = timestamp d, s_code = code d,
                               s_question = translate cb (content q),
                               s_difficulty = difficulty q, s_tags = topicTags q,
                               s_runtimeDisplay = runtimeDisplay d,
                               s_memoryDisplay = memoryDisplay d, s_readme = []\<rparr>
                     in sb\<lparr>s_readme := sprightly cb sb\<rparr>)))"

definition next_commit ::
  "git_user \<Rightarrow> submission \<Rightarrow> git_tree \<times> git_commit \<Rightarrow> (git_tree \<times> git_commit) option" where
  "next_commit ci sb ptr =
     (case extension_of (s_lang sb) of
        None \<Rightarrow> None
      | Some ext \<Rightarrow>
          (case toISOString (s_timestamp sb * 1000) of
             Inl e \<Rightarrow> None
           | Inr d \<Rightarrow>
               (case github_date d of
                  None \<Rightarrow> None
                | Some da \<Rightarrow>
                    Some (foldl upsert (fst ptr) (tree_entries ext sb),
                          GitCommit (commit_message sb)
                            \<lparr>name = name ci, email = email ci, date = da\<rparr>
                            \<lparr>name = name ci, email = email ci, date = da\<rparr>
                            (foldl upsert (fst ptr) (tree_entries ext sb)) [snd ptr]))))"

fun commit_chain ::
  "collaborators \<Rightarrow> leetcode \<Rightarrow> git_user \<Rightarrow> submission_ref list \<Rightarrow> git_tree \<times> git_commit
     \<Rightarrow> (git_tree \<times> git_commit) option" where
  "commit_chain cb lc ci [] ptr = Some ptr"
| "commit_chain cb lc ci (r # rs) ptr =
     (case enrich cb lc r of
        None \<Rightarrow> None
      | Some sb \<Rightarrow>
          (case next_commit ci sb ptr of
             None \<Rightarrow> None
           | Some ptr' \<Rightarrow> commit_chain cb lc ci rs ptr'))"

text \<open>
  The requests of one fault-free iteration of the commit loop.
\<close>

definition sync_events :: "submission_ref \<Rightarrow> event list" where
  "sync_events r =
     [PostSubmissionDetails (ref_id r), PostQuestion (ref_titleSlug r), CreateTree, CreateCommit,
      UpdateRef]"

text \<open>
  The pending list of a run with checkpoint \<open>m\<close>, oldest first: the accepted entries
  of the listing before the first entry at or below the checkpoint, reversed.
\<close>

definition pending :: "number \<Rightarrow> leetcode \<Rightarrow> lc_submission list" where
  "pending mrt lc = rev (filter accepted (takeWhile (newer mrt) (all_submissions lc)))"

text \<open>
  The platform's contract on the listing: strictly decreasing timestamps.
\<close>

definition newest_first :: "leetcode \<Rightarrow> bool" where
  "newest_first lc = sorted_wrt (\<lambda>a b. timestamp b < timestamp a) (all_submissions lc)"

fun created ::
  "collaborators \<Rightarrow> leetcode \<Rightarrow> git_user \<Rightarrow> submission_ref list \<Rightarrow> git_tree \<times> git_commit
     \<Rightarrow> git_commit list" where
  "created cb lc ci [] ptr = []"
| "created cb lc ci (r # rs) ptr =
     (case enrich cb lc r of
        None \<Rightarrow> []
      | Some sb \<Rightarrow>
          (case next_commit ci sb ptr of
             None \<Rightarrow> []
           | Some p \<Rightarrow> snd p # created cb lc ci rs p))"

text \<open>
  Timestamps of the years 0 to 9999, which \<^verbatim>\<open>toISOString\<close> writes with four digits, and the
  entries that can be committed: known to the platform, with a registered language and
  such a timestamp.
\<close>

definition iso_range :: "int \<Rightarrow> bool" where
  "iso_range t = (- 62167219200 \<le> t \<and> t < 253402300800)"

definition committable :: "collaborators \<Rightarrow> leetcode \<Rightarrow> submission_ref \<Rightarrow> bool" where
  "committable cb lc r =
     (case enrich cb lc r of
        None \<Rightarrow> False
      | Some sb \<Rightarrow> extension_of (s_lang sb) \<noteq> None \<and> iso_range (s_timestamp sb))"

text \<open>
  Two accepted Go submissions of 2023-01-01 and 2023-01-02 behind the hand-made initial
  commit; the commit of the first of them; the commits a complete run creates; and the
  world a run leaves that is cut off by a failing tree request for the second.
\<close>

definition two_go :: "lc_submission list" where
  "two_go = [entry 2 ''two-sum'' 1672617600 ''Accepted'' ''golang'',
             entry 1 ''two-sum'' 1672531200 ''Accepted'' ''golang'']"

definition initial_commit :: git_commit where
  "initial_commit = GitCommit ''Initial commit'' example_user example_user [] []"


definition example_created :: "git_commit list" where
  "example_created =
     created example_collaborators (leetcode (example_world two_go [])) example_user
       (map ref_of [entry 1 ''two-sum'' 1672531200 ''Accepted'' ''golang'',
                    entry 2 ''two-sum'' 1672617600 ''Accepted'' ''golang''])
       (tree initial_commit, initial_commit)"


text \<open>
  The requests and delays of the first \<open>k\<close> pages of a listing that starts at an offset:
  one second of delay before every request but the first of a run. \<open>page_count\<close> is the
  number of pages of 20 that are read of a list when reading stops with the page that
  holds the first entry failing a test, or with the last page; \<open>pages_read\<close> is that
  number for the listing behind an offset and the test of the checkpoint.
\<close>

definition listing_trace :: "bool \<Rightarrow> nat \<Rightarrow> nat \<Rightarrow> event list" where
  "listing_trace first offset k =
     concat (map (\<lambda>j. (if first \<and> j = 0 then [] else [Delay 1000])
                       @ [PostSubmissionList (offset + 20 * j)]) [0..<k])"

definition page_count :: "('a \<Rightarrow> bool) \<Rightarrow> 'a list \<Rightarrow> nat" where
  "page_count P xs =
     (if length (takeWhile P xs) < length xs then length (takeWhile P xs) div 20 + 1
      else max 1 ((length xs + 19) div 20))"

definition pages_read :: "number \<Rightarrow> leetcode \<Rightarrow> nat \<Rightarrow> nat" where
  "pages_read mrt lc offset = page_count (newer mrt) (drop offset (all_submissions lc))"

text \<open>
  \<^verbatim>\<open>Number(submission.timestamp)\<close> is exact for an integer up to \<^verbatim>\<open>Number.MAX_SAFE_INTEGER\<close>
  in absolute value, as every timestamp in epoch seconds is.
\<close>

definition safe_timestamp :: "lc_submission \<Rightarrow> bool" where
  "safe_timestamp e = (\<bar>timestamp e\<bar> \<le> 9007199254740991)"

text \<open>
  A listing of 45 entries with the timestamps 45 down to 1, three pages; every third entry
  was not accepted.
\<close>

definition long_listing :: "lc_submission list" where
  "long_listing =
     map (\<lambda>i. entry i ''two-sum'' (int i) (if i mod 3 = 0 then ''Wrong Answer'' else ''Accepted'')
                ''golang'') (rev [1..<46])"

text \<open>
  A listing of 25 entries, two pages, none of them accepted.
\<close>

definition rejected_listing :: "lc_submission list" where
  "rejected_listing =
     map (\<lambda>i. entry i ''two-sum'' (int i) ''Wrong Answer'' ''golang'') (rev [1..<26])"

section \<open>Lemmas\<close>

subsection \<open>Dates: formatting and parsing are inverse\<close>

lemma civil_parts:
  fixes doe :: int
  assumes "0 \<le> doe" "doe < 146097"
  defines "c \<equiv> min 3 (doe div 36524)"
  defines "doc \<equiv> doe - 36524 * c"
  defines "q \<equiv> min 24 (doc div 1461)"
  defines "doq \<equiv> doc - 1461 * q"
  defines "r \<equiv> min 3 (doq div 365)"
  defines "doy \<equiv> doq - 365 * r"
  shows "0 \<le> c \<and> c \<le> 3 \<and> 0 \<le> q \<and> q \<le> 24 \<and> 0 \<le> r \<and> r \<le> 3 \<and> 0 \<le> doy \<and> doy \<le> 365"
proof -
  have c: "0 \<le> c" "c \<le> 3" "0 \<le> doc" "doc \<le> 36524"
    using assms(1,2) unfolding c_def doc_def by arith+
  have q: "0 \<le> q" "q \<le> 24" "0 \<le> doq" "doq \<le> 1460"
    using c unfolding q_def doq_def by arith+
  have r: "0 \<le> r" "r \<le> 3" "0 \<le> doy" "doy \<le> 365"
    using q unfolding r_def doy_def by arith+
  show ?thesis using c q r by simp
qed

lemma month_day:
  fixes doy :: int
  assumes "0 \<le> doy" "doy \<le> 365"
  defines "mp \<equiv> (5 * doy + 2) div 153"
  defines "d \<equiv> doy - (153 * mp + 2) div 5 + 1"
  shows "0 \<le> mp \<and> mp \<le> 11 \<and> 1 \<le> d \<and> d \<le> 31"
  using assms(1,2) unfolding mp_def d_def by arith

lemma civil_roundtrip:
  assumes "civil_from_days z = (y, m, d)"
  shows "days_from_civil y m d = z \<and> 1 \<le> m \<and> m \<le> 12 \<and> 1 \<le> d \<and> d \<le> 31"
proof -
  define era where "era = (z + 719468) div 146097"
  define doe where "doe = (z + 719468) mod 146097"
  define c where "c = min 3 (doe div 36524)"
  define doc where "doc = doe - 36524 * c"
  define q where "q = min 24 (doc div 1461)"
  define doq where "doq = doc - 1461 * q"
  define r where "r = min 3 (doq div 365)"
  define doy where "doy = doq - 365 * r"
  define mp where "mp = (5 * doy + 2) div 153"
  have doe: "0 \<le> doe" "doe < 146097" by (simp_all add: doe_def)
  have parts: "0 \<le> c \<and> c \<le> 3 \<and> 0 \<le> q \<and> q \<le> 24 \<and> 0 \<le> r \<and> r \<le> 3 \<and> 0 \<le> doy \<and> doy \<le> 365"
    unfolding c_def doc_def q_def doq_def r_def doy_def by (rule civil_parts [OF doe])
  have md: "0 \<le> mp \<and> mp \<le> 11 \<and> 1 \<le> doy - (153 * mp + 2) div 5 + 1 \<and> doy - (153 * mp + 2) div 5 + 1 \<le> 31"
  proof -
    have "0 \<le> doy" "doy \<le> 365" using parts by blast+
    then show ?thesis unfolding mp_def by (rule month_day)
  qed
  from assms
  have "(400 * era + 100 * c + 4 * q + r +
          (if (if mp < 10 then mp + 3 else mp - 9) \<le> 2 then 1 else 0),
         (if mp < 10 then mp + 3 else mp - 9), doy - (153 * mp + 2) div 5 + 1) = (y, m, d)"
    unfolding civil_from_days_def Let_def era_def doe_def c_def doc_def q_def doq_def
        r_def doy_def mp_def .
  then have m: "m = (if mp < 10 then mp + 3 else mp - 9)"
    and d: "d = doy - (153 * mp + 2) div 5 + 1"
    and y: "y = 400 * era + 100 * c + 4 * q + r + (if m \<le> 2 then 1 else 0)"
    by blast+
  define yoe where "yoe = 100 * c + 4 * q + r"
  have yoe: "0 \<le> yoe" "yoe < 400" "yoe div 4 = 25 * c + q" "yoe div 100 = c"
    using parts unfolding yoe_def by arith+
  have y': "(if m \<le> 2 then y - 1 else y) = yoe + era * 400"
    using y by (simp add: yoe_def)
  have era': "(yoe + era * 400) div 400 = era"
    using yoe(1,2) by simp
  have mp': "(if m > 2 then m - 3 else m + 9) = mp"
    using md m by auto
  have z: "z = era * 146097 + doe - 719468"
    unfolding era_def doe_def by (simp add: algebra_simps)
  have doe_eq: "doe = yoe * 365 + yoe div 4 - yoe div 100 + doy"
    unfolding yoe(3,4) unfolding yoe_def doy_def doq_def doc_def by simp
  have "days_from_civil y m d = z"
    unfolding days_from_civil_def Let_def y' mp' era'
    using doe_eq z d by simp
  moreover have "1 \<le> m \<and> m \<le> 12" using md m by auto
  moreover have "1 \<le> d \<and> d \<le> 31" using md d by simp
  ultimately show ?thesis by simp
qed

lemma year_range:
  assumes cv: "civil_from_days z = (y, m, d)" and lo: "- 719528 \<le> z" and hi: "z < 2932897"
  shows "0 \<le> y \<and> y \<le> 9999"
proof -
  define era where "era = (z + 719468) div 146097"
  define doe where "doe = (z + 719468) mod 146097"
  define c where "c = min 3 (doe div 36524)"
  define doc where "doc = doe - 36524 * c"
  define q where "q = min 24 (doc div 1461)"
  define doq where "doq = doc - 1461 * q"
  define r where "r = min 3 (doq div 365)"
  define doy where "doy = doq - 365 * r"
  define mp where "mp = (5 * doy + 2) div 153"
  have doe: "0 \<le> doe" "doe < 146097" by (simp_all add: doe_def)
  have parts: "0 \<le> c \<and> c \<le> 3 \<and> 0 \<le> q \<and> q \<le> 24 \<and> 0 \<le> r \<and> r \<le> 3 \<and> 0 \<le> doy \<and> doy \<le> 365"
    unfolding c_def doc_def q_def doq_def r_def doy_def by (rule civil_parts [OF doe])
  from cv
  have "(400 * era + 100 * c + 4 * q + r +
          (if (if mp < 10 then mp + 3 else mp - 9) \<le> 2 then 1 else 0),
         (if mp < 10 then mp + 3 else mp - 9), doy - (153 * mp + 2) div 5 + 1) = (y, m, d)"
    unfolding civil_from_days_def Let_def era_def doe_def c_def doc_def q_def doq_def
        r_def doy_def mp_def .
  moreover have mpb: "0 \<le> mp \<and> mp \<le> 11"
  proof -
    have "0 \<le> doy" "doy \<le> 365" using parts by blast+
    from month_day [OF this] show ?thesis unfolding mp_def by blast
  qed
  ultimately have y: "y = 400 * era + 100 * c + 4 * q + r + (if mp < 10 then 0 else 1)"
    by auto
  have z: "z + 719468 = era * 146097 + doe"
    unfolding era_def doe_def by simp
  have era: "- 1 \<le> era" "era \<le> 24"
    using lo hi z doe by arith+
  have doe_eq: "doe = 36524 * c + 1461 * q + 365 * r + doy"
    unfolding doy_def doq_def doc_def by simp
  have low: "era = - 1 \<Longrightarrow> c = 3 \<and> q = 24 \<and> r = 3 \<and> 10 \<le> mp"
  proof -
    assume e: "era = - 1"
    have d1: "146037 \<le> doe" using e z lo by arith
    have c3: "c = 3" using d1 doe unfolding c_def by arith
    have q24: "q = 24" using d1 doe c3 unfolding q_def doc_def by arith
    have r3: "r = 3" using d1 doe c3 q24 unfolding r_def doq_def doc_def by arith
    have "306 \<le> doy" using d1 c3 q24 r3 doe_eq by arith
    then have "10 \<le> mp" unfolding mp_def by arith
    then show ?thesis using c3 q24 r3 by simp
  qed
  have high: "era = 24 \<Longrightarrow> c = 3 \<Longrightarrow> q = 24 \<Longrightarrow> r = 3 \<Longrightarrow> mp < 10"
  proof -
    assume e: "era = 24" "c = 3" "q = 24" "r = 3"
    have "doe \<le> 146036" using e z hi by arith
    then have "doy \<le> 305" using e doe_eq by arith
    then show "mp < 10" unfolding mp_def using parts by arith
  qed
  have "0 \<le> y"
  proof (cases "era = - 1")
    case True
    then show ?thesis using low y by simp
  next
    case False
    then have "0 \<le> era" using era by arith
    then show ?thesis using y parts by auto
  qed
  moreover have "y \<le> 9999"
  proof (cases "era = 24 \<and> c = 3 \<and> q = 24 \<and> r = 3")
    case True
    then show ?thesis using high y by simp
  next
    case False
    then have "400 * era + 100 * c + 4 * q + r \<le> 9998" using era parts by arith
    then show ?thesis using y by auto
  qed
  ultimately show ?thesis by simp
qed

lemma digit_char_ok: "d < 10 \<Longrightarrow> is_digit (digit_char d) \<and> digit_val (digit_char d) = d"
  by (simp add: is_digit_def digit_char_def digit_val_def)

lemma length_pad: "length (pad k n) = k"
  by (induction k arbitrary: n) simp_all

lemma pad_all_digits: "list_all is_digit (pad k n)"
  by (induction k arbitrary: n) (simp_all add: digit_char_ok)

lemma pad_value: "foldl (\<lambda>a c. 10 * a + digit_val c) 0 (pad k n) = n mod 10 ^ k"
proof (induction k arbitrary: n)
  case 0
  show ?case by simp
next
  case (Suc k)
  have "10 * (n div 10 mod 10 ^ k) + n mod 10 = n mod (10 * 10 ^ k)"
    by (simp add: mod_mult2_eq)
  then show ?case by (simp add: Suc digit_char_ok)
qed

lemma digits_pad: "n < 10 ^ k \<Longrightarrow> digits k (pad k n @ rest) = Some (n, rest)"
  by (simp add: digits_def length_pad pad_all_digits pad_value)

lemma expect_Cons: "expect c (c # r) = Some r"
  by (simp add: expect_def)

lemma fraction_Z: "fraction ''Z'' = Some (0, ''Z'')"
  by (simp add: fraction_def expect_def)

lemma fraction_ms: "ms < 1000 \<Longrightarrow> fraction (CHR ''.'' # pad 3 ms @ rest) = Some (ms, rest)"
  using digits_pad [of ms 3 rest] by (simp add: fraction_def expect_def)

lemma parse_iso_fields:
  assumes "y < 10000" "m < 100" "d < 100" "h < 100" "mi < 100" "sec < 100"
    and "fraction zs = Some (ms, ''Z'')"
  shows "parse_iso (pad 4 y @ ''-'' @ pad 2 m @ ''-'' @ pad 2 d @ ''T'' @ pad 2 h @ '':'' @
           pad 2 mi @ '':'' @ pad 2 sec @ zs)
         = utc_millis y m d h mi sec ms"
proof -
  have two: "m < 10 ^ 2" "d < 10 ^ 2" "h < 10 ^ 2" "mi < 10 ^ 2" "sec < 10 ^ 2" and four: "y < 10 ^ 4"
    using assms by simp_all
  show ?thesis
    unfolding parse_iso_def
    using assms(7)
    by (simp add: digits_pad [OF four] digits_pad [OF two(1)] digits_pad [OF two(2)]
        digits_pad [OF two(3)] digits_pad [OF two(4)] digits_pad [OF two(5)] expect_Cons)
qed

lemma parse_iso_sign: "\<not> is_digit c \<Longrightarrow> parse_iso (c # s) = None"
  by (simp add: parse_iso_def digits_def)

lemma iso_year_out_of_range:
  "\<not> (0 \<le> y \<and> y \<le> 9999) \<Longrightarrow> parse_iso (iso_year y @ s) = None"
  by (auto simp: iso_year_def is_digit_def intro!: parse_iso_sign)

lemma hms_sum:
  fixes t :: int
  shows "(t div 3600 * 60 + t mod 3600 div 60) * 60 + t mod 60 = t"
proof -
  define r where "r = t mod 3600"
  have a: "t mod 60 = r mod 60" unfolding r_def by (simp add: mod_mod_cancel)
  have b: "r div 60 * 60 + r mod 60 = r" by simp
  have c: "t div 3600 * 3600 + r = t" unfolding r_def by simp
  have "(t div 3600 * 60 + r div 60) * 60 + r mod 60 = t div 3600 * 3600 + (r div 60 * 60 + r mod 60)"
    by (simp add: algebra_simps)
  also have "\<dots> = t" unfolding b c ..
  finally show ?thesis unfolding a r_def .
qed

lemma parse_iso_date_time:
  assumes cv: "civil_from_days (s div 86400) = (y, m, d)" and yr: "0 \<le> y" "y \<le> 9999"
    and fr: "fraction zs = Some (ms, ''Z'')"
  shows "parse_iso (iso_date_time s @ zs) = Some (s * 1000 + int ms)"
proof -
  define t where "t = s mod 86400"
  define h where "h = t div 3600"
  define mi where "mi = t mod 3600 div 60"
  define se where "se = t mod 60"
  have t: "0 \<le> t" "t < 86400" by (simp_all add: t_def)
  from civil_roundtrip [OF cv] have rt: "days_from_civil y m d = s div 86400"
    and md: "1 \<le> m" "m \<le> 12" "1 \<le> d" "d \<le> 31" by simp_all
  have hms: "0 \<le> h" "h \<le> 23" "0 \<le> mi" "mi \<le> 59" "0 \<le> se" "se \<le> 59"
    using t unfolding h_def mi_def se_def by arith+
  have sum: "(h * 60 + mi) * 60 + se = t"
    unfolding h_def mi_def se_def by (rule hms_sum)
  have fmt: "iso_date_time s @ zs =
      pad 4 (nat y) @ ''-'' @ pad 2 (nat m) @ ''-'' @ pad 2 (nat d) @ ''T'' @
      pad 2 (nat h) @ '':'' @ pad 2 (nat mi) @ '':'' @ pad 2 (nat se) @ zs"
    using cv yr by (simp add: iso_date_time_def iso_time_def iso_year_def t_def h_def mi_def se_def)
  have lt: "nat y < 10000" "nat m < 100" "nat d < 100" "nat h < 100" "nat mi < 100" "nat se < 100"
    using yr md hms by linarith+
  have "parse_iso (iso_date_time s @ zs) =
      utc_millis (nat y) (nat m) (nat d) (nat h) (nat mi) (nat se) ms"
    unfolding fmt by (rule parse_iso_fields [OF lt fr])
  also have "\<dots> = Some ((((days_from_civil y m d * 24 + h) * 60 + mi) * 60 + se) * 1000 + int ms)"
  proof -
    have "1 \<le> nat m" "nat m \<le> 12" "1 \<le> nat d" "nat d \<le> 31" "nat h \<le> 23" "nat mi \<le> 59"
      "nat se \<le> 59"
      using md hms by linarith+
    moreover have "int (nat y) = y" "int (nat m) = m" "int (nat d) = d" "int (nat h) = h"
      "int (nat mi) = mi" "int (nat se) = se"
      using yr md hms by simp_all
    ultimately show ?thesis by (simp add: utc_millis_def)
  qed
  also have "((days_from_civil y m d * 24 + h) * 60 + mi) * 60 + se = s"
  proof -
    have "((s div 86400 * 24 + h) * 60 + mi) * 60 + se = s div 86400 * 86400 + ((h * 60 + mi) * 60 + se)"
      by (simp add: algebra_simps)
    then show ?thesis unfolding rt sum by (simp add: t_def)
  qed
  finally show ?thesis .
qed

lemma commit_date:
  assumes iso: "toISOString (t * 1000) = Inr d" and gh: "github_date d = Some da"
  shows "da = iso_date_time t @ ''Z'' \<and> Date_parse da = Num (of_int (t * 1000))"
proof -
  obtain y m dd where cv: "civil_from_days (t div 86400) = (y, m, dd)"
    by (cases "civil_from_days (t div 86400)")
  from iso have d: "d = iso_date_time t @ (''.'' @ pad 3 0 @ ''Z'')"
    by (simp add: toISOString_def split: if_splits)
  have yr: "0 \<le> y \<and> y \<le> 9999"
  proof (rule ccontr)
    assume "\<not> (0 \<le> y \<and> y \<le> 9999)"
    then have "parse_iso d = None"
      unfolding d iso_date_time_def cv by (simp add: iso_year_out_of_range)
    with gh show False by (simp add: github_date_def)
  qed
  have f1: "fraction (''.'' @ pad 3 0 @ ''Z'') = Some (0, ''Z'')"
    using fraction_ms [of 0 "''Z''"] by simp
  from parse_iso_date_time [OF cv _ _ f1] yr have "parse_iso d = Some (t * 1000)"
    unfolding d by simp
  with gh have da: "da = iso_date_time t @ ''Z''" by (simp add: github_date_def)
  from parse_iso_date_time [OF cv _ _ fraction_Z] yr
  have "parse_iso (iso_date_time t @ ''Z'') = Some (t * 1000)" by simp
  with da show ?thesis by (simp add: Date_parse_def)
qed

lemma valid_commit_date:
  assumes "- 62167219200 \<le> t" "t < 253402300800"
  shows "\<exists>d. toISOString (t * 1000) = Inr d \<and> github_date d = Some (iso_date_time t @ ''Z'')"
proof -
  obtain y m dd where cv: "civil_from_days (t div 86400) = (y, m, dd)"
    by (cases "civil_from_days (t div 86400)")
  have "- 719528 \<le> t div 86400" "t div 86400 < 2932897" using assms by arith+
  from year_range [OF cv this] have yr: "0 \<le> y" "y \<le> 9999" by simp_all
  have iso: "toISOString (t * 1000) = Inr (iso_date_time t @ (''.'' @ pad 3 0 @ ''Z''))"
    using assms by (simp add: toISOString_def)
  have f1: "fraction (''.'' @ pad 3 0 @ ''Z'') = Some (0, ''Z'')"
    using fraction_ms [of 0 "''Z''"] by simp
  from parse_iso_date_time [OF cv yr f1]
  have "github_date (iso_date_time t @ (''.'' @ pad 3 0 @ ''Z'')) = Some (iso_date_time t @ ''Z'')"
    by (simp add: github_date_def)
  with iso show ?thesis by blast
qed

subsection \<open>The listing filter, the checkpoint scan and commit\<close>

lemma addToSubmissions_closed:
  "addToSubmissions es sbs mrt =
     (list_all (newer mrt) es, sbs @ map ref_of (filter accepted (takeWhile (newer mrt) es)))"
  by (induction es arbitrary: sbs) (simp_all add: newer_def accepted_def ref_of_def)

lemma fetchSubmissions_stop:
  assumes "getSubmissions offset (if first then 0 else 5) 0 (if first then w else delay 1000 w)
             = (Inr response, w1)"
    and "\<not> list_all (newer mrt) (submissions response)"
  shows "fetchSubmissions first offset sbs mrt w =
           (Inr (sbs @ map ref_of (filter accepted (takeWhile (newer mrt) (submissions response)))), w1)"
  using assms by (simp add: addToSubmissions_closed fetchSubmissions.simps [of first offset sbs mrt w])

lemma scanCommits_find:
  "scanCommits cs acc =
     (case find is_sync_commit cs of
        Some c \<Rightarrow> (author c, number_div (Date_parse (date (committer c))) 1000)
      | None \<Rightarrow> acc)"
  by (induction cs) (simp_all add: is_sync_commit_def)

lemma resolveCheckpoint_find:
  "commits \<noteq> [] \<Longrightarrow>
   resolveCheckpoint commits =
     Inr (case find is_sync_commit commits of
            Some c \<Rightarrow> (author c, number_div (Date_parse (date (committer c))) 1000)
          | None \<Rightarrow> (author (last commits), Num 0))"
  by (simp add: resolveCheckpoint_def scanCommits_find last_conv_nth split: option.splits)

lemma Date_parse_2023: "number_div (Date_parse ''2023-01-01T00:00:00Z'') 1000 = Num 1672531200"
  by (simp add: Date_parse_def parse_iso_def utc_millis_def digits_def expect_def fraction_def
      is_digit_def digit_val_def days_from_civil_def number_div_def)

lemma request_cases:
  "request ev w = (r, w') \<Longrightarrow>
     github w' = github w \<and> leetcode w' = leetcode w \<and> trace w' = trace w @ [ev]
     \<and> faults w' = tl (faults w)
     \<and> r = (case faults w of Some e # _ \<Rightarrow> Inl (RequestFailed e) | _ \<Rightarrow> Inr ())"
  by (auto simp: request_def Let_def split: list.splits option.splits)

lemma commit_Inr:
  assumes "commit br ci t l sb w = (Inr (t', c'), w')"
  shows "\<exists>ext d da. extension_of (s_lang sb) = Some ext
           \<and> toISOString (s_timestamp sb * 1000) = Inr d \<and> github_date d = Some da
           \<and> t' = foldl upsert t (tree_entries ext sb)
           \<and> c' = GitCommit (commit_message sb)
                    \<lparr>name = name ci, email = email ci, date = da\<rparr>
                    \<lparr>name = name ci, email = email ci, date = da\<rparr> t' [l]
           \<and> github w' = (github w)\<lparr>head := Some c'\<rparr> \<and> leetcode w' = leetcode w"
  using assms
  by (auto simp: commit_def createTree_def createCommit_def updateRef_def COMMIT_MESSAGE_def
      commit_message_def tree_entries_def
      split: prod.splits sum.splits option.splits if_splits dest!: request_cases)

lemma commit_Inl:
  assumes "commit br ci t l sb w = (Inl e, w')"
  shows "github w' = github w \<and> leetcode w' = leetcode w"
  using assms
  by (auto simp: commit_def createTree_def createCommit_def updateRef_def
      split: prod.splits sum.splits option.splits if_splits dest!: request_cases)

lemma is_sync_commit_iff: "is_sync_commit c \<longleftrightarrow> (\<exists>rest. message c = CHR ''['' # rest)"
  by (cases "message c") (auto simp: is_sync_commit_def startsWith_def COMMIT_MESSAGE_def)

lemma sync_empty_history:
  assumes "head (github w) = None"
  shows "sync cb w =
           (case request ListCommits w of
              (Inl e, w') \<Rightarrow> (Inl e, w')
            | (Inr u, w') \<Rightarrow> (Inl TypeError, w'))"
proof -
  obtain r w' where rq: "request ListCommits w = (r, w')" by (cases "request ListCommits w")
  from request_cases [OF rq] assms have "head (github w') = None" by simp
  with rq show ?thesis
    by (cases r) (simp_all add: sync_def listCommits_def resolveCheckpoint_def)
qed

subsection \<open>Retries\<close>

lemma retry_trace_0: "retry_trace ev rc 0 = []"
  by (simp add: retry_trace_def)

lemma retry_trace_Suc:
  "retry_trace ev rc (Suc k) = [ev, Delay (3 ^ rc * 1000)] @ retry_trace ev (Suc rc) k"
proof -
  have "[0..<Suc k] = 0 # [Suc 0..<Suc k]" by (rule upt_conv_Cons) simp
  also have "\<dots> = 0 # map Suc [0..<k]" by (simp only: map_Suc_upt)
  finally have "[0..<Suc k] = 0 # map Suc [0..<k]" .
  then show ?thesis by (simp add: retry_trace_def comp_def del: upt_Suc)
qed

lemma post_submissionList_ok:
  "faults w = [] \<or> hd (faults w) = None \<Longrightarrow>
   post_submissionList offset 20 w =
     (Inr (page_at (leetcode w) offset),
      w\<lparr>faults := tl (faults w), trace := trace w @ [PostSubmissionList offset]\<rparr>)"
  by (cases "faults w")
     (auto simp: post_submissionList_def request_def page_at_def Let_def split: option.splits)

lemma post_submissionList_fail:
  "faults w = Some e # fs \<Longrightarrow>
   post_submissionList offset 20 w =
     (Inl (RequestFailed e), w\<lparr>faults := fs, trace := trace w @ [PostSubmissionList offset]\<rparr>)"
  by (simp add: post_submissionList_def request_def Let_def)

lemma getSubmissions_retry:
  assumes "faults w = map Some es @ rest" and "rest = [] \<or> hd rest = None"
    and "retryCount + length es \<le> maxRetries"
  shows "getSubmissions offset maxRetries retryCount w =
           (Inr (page_at (leetcode w) offset),
            w\<lparr>faults := tl rest,
              trace := trace w @ retry_trace (PostSubmissionList offset) retryCount (length es)
                       @ [PostSubmissionList offset]\<rparr>)"
  using assms
proof (induction es arbitrary: w retryCount)
  case Nil
  then have "faults w = [] \<or> hd (faults w) = None" by auto
  from post_submissionList_ok [OF this] Nil show ?case
    by (simp add: retry_trace_0 getSubmissions.simps [of offset maxRetries retryCount w])
next
  case (Cons e es)
  let ?w1 = "w\<lparr>faults := map Some es @ rest, trace := trace w @ [PostSubmissionList offset]\<rparr>"
  let ?w2 = "delay (3 ^ retryCount * 1000) ?w1"
  from Cons.prems have f: "faults w = Some e # (map Some es @ rest)" by simp
  have lt: "\<not> maxRetries \<le> retryCount" using Cons.prems by simp
  have step: "getSubmissions offset maxRetries retryCount w =
          getSubmissions offset maxRetries (Suc retryCount) ?w2"
    using post_submissionList_fail [OF f, of offset] lt
    by (simp add: getSubmissions.simps [of offset maxRetries retryCount w])
  have f2: "faults ?w2 = map Some es @ rest" by (simp add: delay_def)
  have le2: "Suc retryCount + length es \<le> maxRetries" using Cons.prems by simp
  have "getSubmissions offset maxRetries (Suc retryCount) ?w2 =
           (Inr (page_at (leetcode ?w2) offset),
            ?w2\<lparr>faults := tl rest,
              trace := trace ?w2 @ retry_trace (PostSubmissionList offset) (Suc retryCount) (length es)
                       @ [PostSubmissionList offset]\<rparr>)"
    by (rule Cons.IH [OF f2 Cons.prems(2) le2])
  with step show ?case
    by (simp add: delay_def retry_trace_Suc)
qed

lemma getSubmissions_exhausted:
  assumes "faults w = map Some es @ rest" and "retryCount + length es = Suc maxRetries"
    and "retryCount \<le> maxRetries"
  shows "getSubmissions offset maxRetries retryCount w =
           (Inl (RequestFailed (last es)),
            w\<lparr>faults := rest,
              trace := trace w @ retry_trace (PostSubmissionList offset) retryCount (length es - 1)
                       @ [PostSubmissionList offset]\<rparr>)"
  using assms
proof (induction es arbitrary: w retryCount)
  case Nil
  then show ?case by simp
next
  case (Cons e es)
  let ?w1 = "w\<lparr>faults := map Some es @ rest, trace := trace w @ [PostSubmissionList offset]\<rparr>"
  let ?w2 = "delay (3 ^ retryCount * 1000) ?w1"
  from Cons.prems have f: "faults w = Some e # (map Some es @ rest)" by simp
  show ?case
  proof (cases es)
    case Nil
    with Cons.prems have "maxRetries \<le> retryCount" by simp
    with post_submissionList_fail [OF f, of offset] Nil show ?thesis
      by (simp add: retry_trace_0 getSubmissions.simps [of offset maxRetries retryCount w])
  next
    case (Cons e' es')
    with Cons.prems have lt: "\<not> maxRetries \<le> retryCount" by simp
    have step: "getSubmissions offset maxRetries retryCount w =
          getSubmissions offset maxRetries (Suc retryCount) ?w2"
      using post_submissionList_fail [OF f, of offset] lt
    by (simp add: getSubmissions.simps [of offset maxRetries retryCount w])
    have f2: "faults ?w2 = map Some es @ rest" by (simp add: delay_def)
    have le2: "Suc retryCount + length es = Suc maxRetries" using Cons.prems by simp
    have le3: "Suc retryCount \<le> maxRetries" using lt by simp
    have "getSubmissions offset maxRetries (Suc retryCount) ?w2 =
           (Inl (RequestFailed (last es)),
            ?w2\<lparr>faults := rest,
              trace := trace ?w2 @ retry_trace (PostSubmissionList offset) (Suc retryCount) (length es - 1)
                       @ [PostSubmissionList offset]\<rparr>)"
      by (rule Cons.IH [OF f2 le2 le3])
    with step Cons show ?thesis
      by (simp add: delay_def retry_trace_Suc)
  qed
qed

lemma fetch_first_fails:
  assumes "faults w = Some e # fs"
  shows "fetchSubmissions True offset sbs mrt w =
           (Inl (RequestFailed e), w\<lparr>faults := fs, trace := trace w @ [PostSubmissionList offset]\<rparr>)"
proof -
  from assms have f: "faults w = map Some [e] @ fs" by simp
  have "getSubmissions offset 0 0 w =
          (Inl (RequestFailed e), w\<lparr>faults := fs, trace := trace w @ [PostSubmissionList offset]\<rparr>)"
    using getSubmissions_exhausted [OF f, of 0 0 offset] by (simp add: retry_trace_0)
  then show ?thesis by (simp add: fetchSubmissions.simps [of True offset sbs mrt w])
qed

lemma fetch_later_exhausted:
  assumes "faults w = map Some es @ rest" and "length es = 6"
  shows "fetchSubmissions False offset sbs mrt w =
           (Inl (RequestFailed (last es)),
            w\<lparr>faults := rest,
              trace := trace w @ [Delay 1000] @ retry_trace (PostSubmissionList offset) 0 5
                       @ [PostSubmissionList offset]\<rparr>)"
proof -
  have f: "faults (delay 1000 w) = map Some es @ rest" using assms by (simp add: delay_def)
  have "getSubmissions offset 5 0 (delay 1000 w) =
          (Inl (RequestFailed (last es)),
           (delay 1000 w)\<lparr>faults := rest,
              trace := trace (delay 1000 w) @ retry_trace (PostSubmissionList offset) 0 (length es - 1)
                       @ [PostSubmissionList offset]\<rparr>)"
    by (rule getSubmissions_exhausted [OF f]) (simp_all add: assms)
  then show ?thesis using assms
    by (simp add: delay_def fetchSubmissions.simps [of False offset sbs mrt w])
qed

lemma fetch_later_retried:
  assumes "faults w = map Some es @ rest" and "rest = [] \<or> hd rest = None" and "length es \<le> 5"
  shows "getSubmissions offset 5 0 (delay 1000 w) =
           (Inr (page_at (leetcode w) offset),
            w\<lparr>faults := tl rest,
              trace := trace w @ [Delay 1000] @ retry_trace (PostSubmissionList offset) 0 (length es)
                       @ [PostSubmissionList offset]\<rparr>)"
proof -
  have f: "faults (delay 1000 w) = map Some es @ rest" using assms by (simp add: delay_def)
  have "0 + length es \<le> 5" using assms by simp
  from getSubmissions_retry [OF f assms(2) this, of offset] show ?thesis
    by (simp add: delay_def)
qed

lemma sync_first_listing_fails:
  assumes "head (github w) = Some h" and "faults w = None # Some e # fs"
  shows "sync cb w =
           (Inl (RequestFailed e),
            w\<lparr>faults := fs, trace := trace w @ [ListCommits, PostSubmissionList 0]\<rparr>)"
proof -
  let ?w1 = "w\<lparr>trace := trace w @ [ListCommits], faults := Some e # fs\<rparr>"
  have l: "listCommits w = (Inr (take 100 (history h)), ?w1)"
    using assms by (simp add: listCommits_def request_def Let_def)
  have ne: "take 100 (history h) \<noteq> []" by (cases h rule: history.cases) simp_all
  then obtain ci mrt where rc: "resolveCheckpoint (take 100 (history h)) = Inr (ci, mrt)"
    by (cases "scanCommits (take 100 (history h))
                 (author (take 100 (history h) ! (length (take 100 (history h)) - 1)), Num 0)")
       (simp add: resolveCheckpoint_def)
  have "faults ?w1 = Some e # fs" by simp
  from fetch_first_fails [OF this, of 0 "[]" mrt] l rc show ?thesis
    by (simp add: sync_def)
qed

subsection \<open>What the lookups leave unchanged\<close>

lemma commit_unregistered:
  "extension_of (s_lang sb) = None \<Longrightarrow>
   commit br ci t l sb w = (Inl (not_registered (s_lang sb)), w)"
  by (simp add: commit_def not_registered_def)

lemma getInfo_frame:
  "getInfo i maxRetries retryCount w = (r, w') \<Longrightarrow>
     github w' = github w \<and> leetcode w' = leetcode w
     \<and> (\<exists>evs. trace w' = trace w @ evs \<and> list_all (\<lambda>ev. \<not> host_write ev) evs)"
proof (induction i maxRetries retryCount w rule: getInfo.induct)
  case (1 i maxRetries retryCount w)
  obtain r1 w1 where p: "post_submissionDetails i w = (r1, w1)"
    by (cases "post_submissionDetails i w")
  then have l1: "github w1 = github w \<and> leetcode w1 = leetcode w
      \<and> trace w1 = trace w @ [PostSubmissionDetails i]"
    by (auto simp: post_submissionDetails_def split: prod.splits sum.splits dest: request_cases)
  show ?case
  proof (cases r1)
    case (Inr response)
    with p "1.prems" l1 show ?thesis by (simp add: getInfo.simps [of i maxRetries retryCount w])
  next
    case (Inl exception)
    show ?thesis
    proof (cases "retryCount \<ge> maxRetries")
      case True
      with p Inl "1.prems" l1 show ?thesis
        by (simp add: getInfo.simps [of i maxRetries retryCount w])
    next
      case False
      with p Inl "1.prems" have
        "getInfo i maxRetries (retryCount + 1) (delay (3 ^ retryCount * 1000) w1) = (r, w')"
        by (simp add: getInfo.simps [of i maxRetries retryCount w])
      from "1.IH" [OF p [symmetric] Inl False this] l1 show ?thesis
        by (auto simp: delay_def)
    qed
  qed
qed

lemma getSubmissionData_frame:
  "getSubmissionData i w = (r, w') \<Longrightarrow>
     github w' = github w \<and> leetcode w' = leetcode w
     \<and> (\<exists>evs. trace w' = trace w @ evs \<and> list_all (\<lambda>ev. \<not> host_write ev) evs)"
  unfolding getSubmissionData_def by (rule getInfo_frame)

lemma getQuestionData_frame:
  "getQuestionData slug w = (r, w') \<Longrightarrow>
     github w' = github w \<and> leetcode w' = leetcode w \<and> trace w' = trace w @ [PostQuestion slug]"
  by (auto simp: getQuestionData_def post_question_def split: prod.splits sum.splits
      dest: request_cases)

text \<open>
  A language for which the lookup finds nothing: \<open>commit\<close> fails before any request and
  leaves the world as it is; the loop of \<open>sync\<close> stops there, the host is as the previous
  iteration left it, and the iteration sent no tree, commit or ref request. The lookup finds
  nothing for every name but \<^verbatim>\<open>golang\<close> and the inherited property names.
\<close>

lemma commitLoop_unregistered:
  assumes a: "getSubmissionData (ref_id (sbs ! i)) w = (Inr (Some d), w1)"
    and b: "getQuestionData (ref_titleSlug (sbs ! i)) w1 = (Some (Some q), w2)"
    and c: "extension_of (lang_name d) = None"
  shows "commitLoop cb br ci sbs (Suc i) ptr w = (Inl (not_registered (lang_name d)), w2)
      \<and> github w2 = github w
      \<and> (\<exists>evs. trace w2 = trace w @ evs \<and> list_all (\<lambda>ev. \<not> host_write ev) evs)"
proof -
  from getSubmissionData_frame [OF a] obtain evs where
    g1: "github w1 = github w" and t1: "trace w1 = trace w @ evs"
    and e1: "list_all (\<lambda>ev. \<not> host_write ev) evs" by blast
  from getQuestionData_frame [OF b] have
    g2: "github w2 = github w1" and t2: "trace w2 = trace w1 @ [PostQuestion (ref_titleSlug (sbs ! i))]"
    by simp_all
  have "commitLoop cb br ci sbs (Suc i) ptr w = (Inl (not_registered (lang_name d)), w2)"
    using a b c by (simp add: syncSubmission_def Let_def commit_unregistered)
  moreover have "trace w2 = trace w @ (evs @ [PostQuestion (ref_titleSlug (sbs ! i))])"
    using t1 t2 by simp
  moreover have "list_all (\<lambda>ev. \<not> host_write ev) (evs @ [PostQuestion (ref_titleSlug (sbs ! i))])"
    using e1 by simp
  ultimately show ?thesis using g1 g2 by auto
qed

lemma extension_of_None:
  "extension_of lang = None \<longleftrightarrow>
     lang \<noteq> ''golang'' \<and> lang \<notin> set (map fst Object_prototype)"
  by (simp add: extension_of_def LANG_TO_EXTENSION_def map_of_eq_None_iff)

subsection \<open>Example data\<close>

text \<open>
  A \<^verbatim>\<open>rust\<close> submission pending on top of an earlier sync commit: the run stops at it
  before any write.
\<close>

lemma sync_unregistered_example:
  "sync example_collaborators (synced_world rust_then_go [])
     = (Inl (Thrown ''Language rust does not have a registered extension.''),
        (synced_world rust_then_go [])
          \<lparr>trace := [ListCommits, PostSubmissionList 0, ReposGet, PostSubmissionDetails 2,
                     PostQuestion ''two-sum'']\<rparr>)"
  by code_simp

subsection \<open>The listing loop\<close>

lemma getSubmissions_frame:
  "getSubmissions offset maxRetries retryCount w = (r, w') \<Longrightarrow>
     github w' = github w \<and> leetcode w' = leetcode w
     \<and> (\<exists>evs. trace w' = trace w @ evs \<and> list_all (\<lambda>ev. \<not> host_write ev) evs)"
proof (induction offset maxRetries retryCount w rule: getSubmissions.induct)
  case (1 offset maxRetries retryCount w)
  obtain r1 w1 where p: "post_submissionList offset 20 w = (r1, w1)"
    by (cases "post_submissionList offset 20 w")
  then have l1: "github w1 = github w \<and> leetcode w1 = leetcode w
      \<and> trace w1 = trace w @ [PostSubmissionList offset]"
    by (auto simp: post_submissionList_def split: prod.splits sum.splits dest: request_cases)
  show ?case
  proof (cases r1)
    case (Inr response)
    with p "1.prems" l1 show ?thesis
      by (simp add: getSubmissions.simps [of offset maxRetries retryCount w])
  next
    case (Inl exception)
    show ?thesis
    proof (cases "retryCount \<ge> maxRetries")
      case True
      with p Inl "1.prems" l1 show ?thesis
        by (simp add: getSubmissions.simps [of offset maxRetries retryCount w])
    next
      case False
      with p Inl "1.prems" have
        "getSubmissions offset maxRetries (retryCount + 1) (delay (3 ^ retryCount * 1000) w1) = (r, w')"
        by (simp add: getSubmissions.simps [of offset maxRetries retryCount w])
      from "1.IH" [OF p [symmetric] Inl False this] l1 show ?thesis
        by (auto simp: delay_def)
    qed
  qed
qed

lemma takeWhile_take_stop:
  "\<not> list_all P (take n xs) \<Longrightarrow> takeWhile P xs = takeWhile P (take n xs)"
proof (induction xs arbitrary: n)
  case Nil
  then show ?case by simp
next
  case (Cons x xs)
  then show ?case by (cases n) auto
qed

lemma takeWhile_take_continue:
  "list_all P (take n xs) \<Longrightarrow> takeWhile P xs = take n xs @ takeWhile P (drop n xs)"
proof (induction xs arbitrary: n)
  case Nil
  then show ?case by simp
next
  case (Cons x xs)
  then show ?case by (cases n) auto
qed

lemma takeWhile_all: "list_all P xs \<Longrightarrow> takeWhile P xs = xs"
  by (induction xs) simp_all

lemma fetch_result:
  "fetchSubmissions first offset sbs mrt w = (Inr out, w') \<Longrightarrow>
     out = sbs @ map ref_of (filter accepted
             (takeWhile (newer mrt) (drop offset (all_submissions (leetcode w)))))"
proof (induction first offset sbs mrt w rule: fetchSubmissions.induct)
  case (1 first offset sbs mrt w)
  let ?w0 = "if first then w else delay 1000 w"
  let ?all = "all_submissions (leetcode w)"
  obtain r1 w1 where g: "getSubmissions offset (if first then 0 else 5) 0 ?w0 = (r1, w1)"
    by (cases "getSubmissions offset (if first then 0 else 5) 0 ?w0")
  have l0: "leetcode ?w0 = leetcode w" by (simp add: delay_def)
  from getSubmissions_frame [OF g] l0 have l1: "leetcode w1 = leetcode w" by simp
  show ?case
  proof (cases r1)
    case (Inl e)
    with g "1.prems" show ?thesis
      by (simp add: fetchSubmissions.simps [of first offset sbs mrt w])
  next
    case (Inr response)
    from getSubmissions_hasNext [OF g [unfolded Inr]] l0
    have hn: "hasNext response = (offset + 20 < length ?all)"
      and pg: "submissions response = take 20 (drop offset ?all)" by simp_all
    let ?page = "take 20 (drop offset ?all)"
    let ?sbs' = "sbs @ map ref_of (filter accepted (takeWhile (newer mrt) ?page))"
    have a: "addToSubmissions (submissions response) sbs mrt = (list_all (newer mrt) ?page, ?sbs')"
      unfolding pg by (rule addToSubmissions_closed)
    show ?thesis
    proof (cases "list_all (newer mrt) ?page")
      case False
      with g Inr a "1.prems" have "out = ?sbs'"
        by (simp add: fetchSubmissions.simps [of first offset sbs mrt w])
      with takeWhile_take_stop [OF False] show ?thesis by simp
    next
      case True
      note cont = takeWhile_take_continue [OF True]
      show ?thesis
      proof (cases "hasNext response")
        case False
        with hn have "drop 20 (drop offset ?all) = []" by simp
        with cont have tw: "takeWhile (newer mrt) (drop offset ?all) = ?page" by simp
        have tp: "takeWhile (newer mrt) ?page = ?page" by (rule takeWhile_all [OF True])
        from g Inr a True False "1.prems" have "out = ?sbs'"
          by (simp add: fetchSubmissions.simps [of first offset sbs mrt w])
        then show ?thesis unfolding tw tp .
      next
        case hnT: True
        from g Inr a True hnT "1.prems"
        have rec: "fetchSubmissions False (offset + 20) ?sbs' mrt w1 = (Inr out, w')"
          by (simp add: fetchSubmissions.simps [of first offset sbs mrt w])
        have "out = ?sbs' @ map ref_of (filter accepted
             (takeWhile (newer mrt) (drop (offset + 20) (all_submissions (leetcode w1)))))"
          by (rule "1.IH" [OF g [symmetric] Inr a [symmetric] _ hnT rec]) (simp add: True)
        moreover have "takeWhile (newer mrt) ?page = ?page" by (rule takeWhile_all [OF True])
        moreover have "drop (offset + 20) ?all = drop 20 (drop offset ?all)"
          by (simp add: add.commute)
        ultimately show ?thesis unfolding cont l1 by simp
      qed
    qed
  qed
qed

lemma fetch_frame:
  "fetchSubmissions first offset sbs mrt w = (r, w') \<Longrightarrow>
     github w' = github w \<and> leetcode w' = leetcode w
     \<and> (\<exists>evs. trace w' = trace w @ evs \<and> list_all (\<lambda>ev. \<not> host_write ev) evs)"
proof (induction first offset sbs mrt w rule: fetchSubmissions.induct)
  case (1 first offset sbs mrt w)
  let ?w0 = "if first then w else delay 1000 w"
  obtain r1 w1 where g: "getSubmissions offset (if first then 0 else 5) 0 ?w0 = (r1, w1)"
    by (cases "getSubmissions offset (if first then 0 else 5) 0 ?w0")
  have l0: "github ?w0 = github w \<and> leetcode ?w0 = leetcode w
      \<and> (\<exists>evs. trace ?w0 = trace w @ evs \<and> list_all (\<lambda>ev. \<not> host_write ev) evs)"
    by (simp add: delay_def)
  from getSubmissions_frame [OF g] l0
  have l1: "github w1 = github w \<and> leetcode w1 = leetcode w
      \<and> (\<exists>evs. trace w1 = trace w @ evs \<and> list_all (\<lambda>ev. \<not> host_write ev) evs)"
    by (cases first) (auto simp: delay_def)
  show ?case
  proof (cases r1)
    case (Inl e)
    with g "1.prems" l1 show ?thesis
      by (simp add: fetchSubmissions.simps [of first offset sbs mrt w])
  next
    case (Inr response)
    obtain b sbs' where a: "addToSubmissions (submissions response) sbs mrt = (b, sbs')"
      by (cases "addToSubmissions (submissions response) sbs mrt")
    show ?thesis
    proof (cases "b \<and> hasNext response")
      case False
      with g Inr a "1.prems" l1 show ?thesis
        by (cases b) (auto simp: fetchSubmissions.simps [of first offset sbs mrt w])
    next
      case True
      with g Inr a "1.prems"
      have rec: "fetchSubmissions False (offset + 20) sbs' mrt w1 = (r, w')"
        by (simp add: fetchSubmissions.simps [of first offset sbs mrt w])
      from True have b: "b = True" and hnT: "hasNext response" by simp_all
      from "1.IH" [OF g [symmetric] Inr a [symmetric, unfolded b] _ hnT rec] l1
      show ?thesis by auto
    qed
  qed
qed

subsection \<open>One iteration of the commit loop\<close>

lemma getInfo_value:
  "getInfo i maxRetries retryCount w = (Inr v, w') \<Longrightarrow>
     v = find (\<lambda>s. sub_id s = i) (all_submissions (leetcode w))"
proof (induction i maxRetries retryCount w rule: getInfo.induct)
  case (1 i maxRetries retryCount w)
  obtain r1 w1 where p: "post_submissionDetails i w = (r1, w1)"
    by (cases "post_submissionDetails i w")
  then have l1: "leetcode w1 = leetcode w"
    by (auto simp: post_submissionDetails_def split: prod.splits sum.splits dest: request_cases)
  show ?case
  proof (cases r1)
    case (Inr response)
    from p Inr have "response = find (\<lambda>s. sub_id s = i) (all_submissions (leetcode w))"
      by (auto simp: post_submissionDetails_def split: prod.splits sum.splits dest: request_cases)
    with p Inr "1.prems" show ?thesis by (simp add: getInfo.simps [of i maxRetries retryCount w])
  next
    case (Inl exception)
    show ?thesis
    proof (cases "retryCount \<ge> maxRetries")
      case True
      with p Inl "1.prems" show ?thesis
        by (simp add: getInfo.simps [of i maxRetries retryCount w])
    next
      case False
      with p Inl "1.prems" have
        "getInfo i maxRetries (retryCount + 1) (delay (3 ^ retryCount * 1000) w1) = (Inr v, w')"
        by (simp add: getInfo.simps [of i maxRetries retryCount w])
      from "1.IH" [OF p [symmetric] Inl False this] l1 show ?thesis
        by (simp add: delay_def)
    qed
  qed
qed

lemma getQuestionData_value:
  "getQuestionData slug w = (Some v, w') \<Longrightarrow> v = map_of (questions (leetcode w)) slug"
  by (auto simp: getQuestionData_def post_question_def split: prod.splits sum.splits
      dest: request_cases)

lemma commit_next:
  assumes "commit br ci t l sb w = (Inr ptr', w')"
  shows "next_commit ci sb (t, l) = Some ptr' \<and> github w' = (github w)\<lparr>head := Some (snd ptr')\<rparr>
         \<and> leetcode w' = leetcode w"
proof -
  obtain t' c' where p: "ptr' = (t', c')" by (cases ptr')
  from commit_Inr [OF assms [unfolded p]] show ?thesis
    unfolding p by (auto simp: next_commit_def)
qed

lemma syncSubmission_Inr:
  assumes "syncSubmission cb br ci r ptr w = (Inr ptr', w')"
  shows "\<exists>sb. enrich cb (leetcode w) r = Some sb \<and> next_commit ci sb ptr = Some ptr'
           \<and> github w' = (github w)\<lparr>head := Some (snd ptr')\<rparr> \<and> leetcode w' = leetcode w"
proof -
  obtain r1 w1 where a: "getSubmissionData (ref_id r) w = (r1, w1)"
    by (cases "getSubmissionData (ref_id r) w")
  obtain r2 w2 where b: "getQuestionData (ref_titleSlug r) w1 = (r2, w2)"
    by (cases "getQuestionData (ref_titleSlug r) w1")
  from getSubmissionData_frame [OF a] have f1: "github w1 = github w" "leetcode w1 = leetcode w"
    by simp_all
  from getQuestionData_frame [OF b] have f2: "github w2 = github w1" "leetcode w2 = leetcode w1"
    by simp_all
  from assms a b obtain d q where r1: "r1 = Inr (Some d)" and r2: "r2 = Some (Some q)"
    by (auto simp: syncSubmission_def split: sum.splits option.splits)
  from a r1 have d: "find (\<lambda>s. sub_id s = ref_id r) (all_submissions (leetcode w)) = Some d"
    using getInfo_value [of "ref_id r" 5 0 w "Some d" w1] by (simp add: getSubmissionData_def)
  from getQuestionData_value [OF b [unfolded r2]] f1
  have q: "map_of (questions (leetcode w)) (ref_titleSlug r) = Some q" by simp
  let ?sb0 = "\<lparr>s_id = ref_id r, s_slug = ref_titleSlug r, s_title = title q,
                s_lang = lang_name d, s_timestamp = timestamp d, s_code = code d,
                s_question = translate cb (content q),
                s_difficulty = difficulty q, s_tags = topicTags q,
                s_runtimeDisplay = runtimeDisplay d,
                s_memoryDisplay = memoryDisplay d, s_readme = []\<rparr>"
  let ?sb = "?sb0\<lparr>s_readme := sprightly cb ?sb0\<rparr>"
  from assms a b r1 r2 have c: "commit br ci (fst ptr) (snd ptr) ?sb w2 = (Inr ptr', w')"
    by (simp add: syncSubmission_def Let_def)
  have e: "enrich cb (leetcode w) r = Some ?sb"
    by (simp add: enrich_def d q Let_def)
  from commit_next [OF c] f1 f2 e show ?thesis by simp
qed

lemma syncSubmission_Inl:
  assumes "syncSubmission cb br ci r ptr w = (Inl e, w')"
  shows "github w' = github w \<and> leetcode w' = leetcode w"
proof -
  obtain r1 w1 where a: "getSubmissionData (ref_id r) w = (r1, w1)"
    by (cases "getSubmissionData (ref_id r) w")
  obtain r2 w2 where b: "getQuestionData (ref_titleSlug r) w1 = (r2, w2)"
    by (cases "getQuestionData (ref_titleSlug r) w1")
  from getSubmissionData_frame [OF a] have f1: "github w1 = github w" "leetcode w1 = leetcode w"
    by simp_all
  from getQuestionData_frame [OF b] have f2: "github w2 = github w1" "leetcode w2 = leetcode w1"
    by simp_all
  from assms a b f1 f2 show ?thesis
    by (auto simp: syncSubmission_def Let_def split: sum.splits option.splits dest!: commit_Inl)
qed

subsection \<open>The commit loop\<close>

lemma commit_chain_append:
  "commit_chain cb lc ci (xs @ ys) ptr =
     (case commit_chain cb lc ci xs ptr of None \<Rightarrow> None | Some p \<Rightarrow> commit_chain cb lc ci ys p)"
  by (induction xs arbitrary: ptr) (auto split: option.splits)

lemma commitLoop_progress:
  "commitLoop cb br ci sbs n ptr w = (r, w') \<Longrightarrow> n \<le> length sbs \<Longrightarrow>
     \<exists>k p. k \<le> n \<and> commit_chain cb (leetcode w) ci (take k (rev (take n sbs))) ptr = Some p
       \<and> github w' = (github w)\<lparr>head := (if k = 0 then head (github w) else Some (snd p))\<rparr>
       \<and> leetcode w' = leetcode w
       \<and> (case r of Inr p' \<Rightarrow> k = n \<and> p' = p | Inl e \<Rightarrow> k < n)"
proof (induction n arbitrary: ptr w)
  case 0
  then show ?case by (intro exI [of _ 0] exI [of _ ptr]) auto
next
  case (Suc i)
  obtain r1 w1 where s: "syncSubmission cb br ci (sbs ! i) ptr w = (r1, w1)"
    by (cases "syncSubmission cb br ci (sbs ! i) ptr w")
  from Suc.prems have i: "i < length sbs" by simp
  have rv: "rev (take (Suc i) sbs) = sbs ! i # rev (take i sbs)"
    using i by (simp add: take_Suc_conv_app_nth)
  show ?case
  proof (cases r1)
    case (Inl e)
    with s Suc.prems have "r = Inl e" "w' = w1" by simp_all
    with syncSubmission_Inl [OF s [unfolded Inl]] show ?thesis
      by (intro exI [of _ 0] exI [of _ ptr]) auto
  next
    case (Inr p1)
    from syncSubmission_Inr [OF s [unfolded Inr]] obtain sb where
      e: "enrich cb (leetcode w) (sbs ! i) = Some sb" and nc: "next_commit ci sb ptr = Some p1"
      and g1: "github w1 = (github w)\<lparr>head := Some (snd p1)\<rparr>" and l1: "leetcode w1 = leetcode w"
      by blast
    from s Inr Suc.prems have rec: "commitLoop cb br ci sbs i p1 w1 = (r, w')" by simp
    from Suc.IH [OF rec] i obtain k p where
      k: "k \<le> i" and ch: "commit_chain cb (leetcode w1) ci (take k (rev (take i sbs))) p1 = Some p"
      and g: "github w' = (github w1)\<lparr>head := (if k = 0 then head (github w1) else Some (snd p))\<rparr>"
      and l: "leetcode w' = leetcode w1"
      and r: "(case r of Inr p' \<Rightarrow> k = i \<and> p' = p | Inl e \<Rightarrow> k < i)"
      by auto
    have p0: "k = 0 \<Longrightarrow> p = p1" using ch by simp
    have "commit_chain cb (leetcode w) ci (take (Suc k) (rev (take (Suc i) sbs))) ptr = Some p"
      unfolding rv using e nc ch l1 by simp
    moreover have "github w' = (github w)\<lparr>head := Some (snd p)\<rparr>"
      using g g1 p0 by (cases "k = 0") simp_all
    moreover have "(case r of Inr p' \<Rightarrow> Suc k = Suc i \<and> p' = p | Inl e \<Rightarrow> Suc k < Suc i)"
      using r by (cases r) simp_all
    ultimately show ?thesis using k l l1
      by (intro exI [of _ "Suc k"] exI [of _ p]) simp
  qed
qed

lemma request_ok: "faults w = [] \<Longrightarrow> request ev w = (Inr (), w\<lparr>trace := trace w @ [ev]\<rparr>)"
  by (simp add: request_def)

lemma syncSubmission_ok:
  assumes f: "faults w = []" and e: "enrich cb (leetcode w) r = Some sb"
    and n: "next_commit ci sb ptr = Some ptr'" and br: "br = default_branch (github w)"
  shows "syncSubmission cb br ci r ptr w =
           (Inr ptr', w\<lparr>github := (github w)\<lparr>head := Some (snd ptr')\<rparr>,
                        trace := trace w @ sync_events r\<rparr>)"
proof -
  from e obtain d q where
    d: "find (\<lambda>s. sub_id s = ref_id r) (all_submissions (leetcode w)) = Some d"
    and q: "map_of (questions (leetcode w)) (ref_titleSlug r) = Some q"
    by (auto simp: enrich_def split: option.splits)
  let ?w1 = "w\<lparr>trace := trace w @ [PostSubmissionDetails (ref_id r)]\<rparr>"
  let ?w2 = "w\<lparr>trace := trace w @ [PostSubmissionDetails (ref_id r), PostQuestion (ref_titleSlug r)]\<rparr>"
  have a: "getSubmissionData (ref_id r) w = (Inr (Some d), ?w1)"
    using f d
    by (simp add: getSubmissionData_def getInfo.simps [of "ref_id r" 5 0 w]
        post_submissionDetails_def request_ok)
  have b: "getQuestionData (ref_titleSlug r) ?w1 = (Some (Some q), ?w2)"
    using f q by (simp add: getQuestionData_def post_question_def request_ok)
  from n obtain ext dt da where
    x: "extension_of (s_lang sb) = Some ext"
    and t: "toISOString (s_timestamp sb * 1000) = Inr dt" and g: "github_date dt = Some da"
    and p: "ptr' = (foldl upsert (fst ptr) (tree_entries ext sb),
                   GitCommit (commit_message sb)
                     \<lparr>name = name ci, email = email ci, date = da\<rparr>
                     \<lparr>name = name ci, email = email ci, date = da\<rparr>
                     (foldl upsert (fst ptr) (tree_entries ext sb)) [snd ptr])"
    by (auto simp: next_commit_def split: option.splits sum.splits)
  have c: "commit br ci (fst ptr) (snd ptr) sb ?w2 =
      (Inr ptr', w\<lparr>github := (github w)\<lparr>head := Some (snd ptr')\<rparr>,
                   trace := trace w @ sync_events r\<rparr>)"
    using f x t g br unfolding p
    by (simp add: commit_def createTree_def createCommit_def updateRef_def request_ok
        COMMIT_MESSAGE_def commit_message_def tree_entries_def sync_events_def)
  from e d q have sbe: "sb = (let sb0 = \<lparr>s_id = ref_id r, s_slug = ref_titleSlug r, s_title = title q,
                               s_lang = lang_name d, s_timestamp = timestamp d, s_code = code d,
                               s_question = translate cb (content q),
                               s_difficulty = difficulty q, s_tags = topicTags q,
                               s_runtimeDisplay = runtimeDisplay d,
                               s_memoryDisplay = memoryDisplay d, s_readme = []\<rparr>
                     in sb0\<lparr>s_readme := sprightly cb sb0\<rparr>)"
    by (simp add: enrich_def)
  show ?thesis
    using a b c unfolding sbe by (simp add: syncSubmission_def Let_def)
qed

lemma commitLoop_ok:
  assumes "faults w = []" and "n \<le> length sbs" and "br = default_branch (github w)"
    and "commit_chain cb (leetcode w) ci (rev (take n sbs)) ptr = Some p"
  shows "\<exists>w'. commitLoop cb br ci sbs n ptr w = (Inr p, w') \<and> faults w' = []
           \<and> trace w' = trace w @ concat (map sync_events (rev (take n sbs)))"
  using assms
proof (induction n arbitrary: ptr w)
  case 0
  then show ?case by simp
next
  case (Suc i)
  from Suc.prems have i: "i < length sbs" by simp
  have rv: "rev (take (Suc i) sbs) = sbs ! i # rev (take i sbs)"
    using i by (simp add: take_Suc_conv_app_nth)
  from Suc.prems(4) [unfolded rv] obtain sb p1 where
    e: "enrich cb (leetcode w) (sbs ! i) = Some sb" and nc: "next_commit ci sb ptr = Some p1"
    and ch: "commit_chain cb (leetcode w) ci (rev (take i sbs)) p1 = Some p"
    by (auto split: option.splits)
  let ?w1 = "w\<lparr>github := (github w)\<lparr>head := Some (snd p1)\<rparr>,
               trace := trace w @ sync_events (sbs ! i)\<rparr>"
  have s: "syncSubmission cb br ci (sbs ! i) ptr w = (Inr p1, ?w1)"
    by (rule syncSubmission_ok [OF Suc.prems(1) e nc Suc.prems(3)])
  have "\<exists>w'. commitLoop cb br ci sbs i p1 ?w1 = (Inr p, w') \<and> faults w' = []
           \<and> trace w' = trace ?w1 @ concat (map sync_events (rev (take i sbs)))"
    by (rule Suc.IH) (use Suc.prems i ch in simp_all)
  then show ?case using s rv by auto
qed

subsection \<open>A run, whatever the network does\<close>

lemma history_Cons: "history h = h # tl (history h)"
  by (cases h rule: history.cases) simp_all

lemma take_history: "take 100 (history h) = h # take 99 (tl (history h))"
  by (subst history_Cons) simp

lemma fetch_ok:
  "faults w = [] \<Longrightarrow>
     \<exists>out w'. fetchSubmissions first offset sbs mrt w = (Inr out, w') \<and> faults w' = []"
proof (induction first offset sbs mrt w rule: fetchSubmissions.induct)
  case (1 first offset sbs mrt w)
  let ?w0 = "if first then w else delay 1000 w"
  have f0: "faults ?w0 = map Some [] @ []" using "1.prems" by (simp add: delay_def)
  let ?w1 = "?w0\<lparr>faults := tl [],
              trace := trace ?w0 @ retry_trace (PostSubmissionList offset) 0 (length ([] :: nat list))
                       @ [PostSubmissionList offset]\<rparr>"
  have g: "getSubmissions offset (if first then 0 else 5) 0 ?w0 =
             (Inr (page_at (leetcode ?w0) offset), ?w1)"
    by (rule getSubmissions_retry [OF f0]) simp_all
  have f1: "faults ?w1 = []" by simp
  obtain b sbs' where a: "addToSubmissions (submissions (page_at (leetcode ?w0) offset)) sbs mrt = (b, sbs')"
    by (cases "addToSubmissions (submissions (page_at (leetcode ?w0) offset)) sbs mrt")
  show ?case
  proof (cases "b \<and> hasNext (page_at (leetcode ?w0) offset)")
    case False
    with g a f1 show ?thesis
      by (cases b) (auto simp: fetchSubmissions.simps [of first offset sbs mrt w])
  next
    case True
    then have b: "b = True" and hn: "hasNext (page_at (leetcode ?w0) offset)" by simp_all
    from "1.IH" [OF g [symmetric] refl a [symmetric, unfolded b] _ hn f1]
    obtain out w' where "fetchSubmissions False (offset + 20) sbs' mrt ?w1 = (Inr out, w')"
      and "faults w' = []" by auto
    with g a b hn show ?thesis
      by (simp add: fetchSubmissions.simps [of first offset sbs mrt w])
  qed
qed

lemma listCommits_cases:
  assumes "head (github w) = Some h0" and "listCommits w = (r, w1)"
  shows "github w1 = github w \<and> leetcode w1 = leetcode w \<and> trace w1 = trace w @ [ListCommits]
         \<and> faults w1 = tl (faults w)
         \<and> (r = Inr (take 100 (history h0)) \<or> (\<exists>e. r = Inl e))"
  using assms
  by (auto simp: listCommits_def split: prod.splits sum.splits dest!: request_cases)

lemma repos_get_cases:
  assumes "repos_get w = (r, w1)"
  shows "github w1 = github w \<and> leetcode w1 = leetcode w \<and> trace w1 = trace w @ [ReposGet]
         \<and> faults w1 = tl (faults w)
         \<and> (r = Inr (default_branch (github w)) \<or> (\<exists>e. r = Inl e))"
  using assms
  by (auto simp: repos_get_def split: prod.splits sum.splits dest!: request_cases)

lemma sync_progress:
  assumes hd: "head (github w) = Some h0"
    and cp: "resolveCheckpoint (take 100 (history h0)) = Inr (ci, mrt)"
    and run: "sync cb w = (r, w')"
  shows "\<exists>k p. k \<le> length (pending mrt (leetcode w))
           \<and> commit_chain cb (leetcode w) ci (map ref_of (take k (pending mrt (leetcode w))))
                (tree h0, h0) = Some p
           \<and> github w' = (github w)\<lparr>head := Some (snd p)\<rparr> \<and> leetcode w' = leetcode w
           \<and> (r = Inr () \<longrightarrow> k = length (pending mrt (leetcode w)))
           \<and> (\<forall>e. r = Inl e \<and> k = length (pending mrt (leetcode w)) \<longrightarrow> k = 0)"
proof -
  let ?P = "pending mrt (leetcode w)"
  have zero: "\<exists>k p. k \<le> length ?P
           \<and> commit_chain cb (leetcode w) ci (map ref_of (take k ?P)) (tree h0, h0) = Some p
           \<and> github w' = (github w)\<lparr>head := Some (snd p)\<rparr> \<and> leetcode w' = leetcode w
           \<and> (r = Inr () \<longrightarrow> k = length ?P)
           \<and> (\<forall>e. r = Inl e \<and> k = length ?P \<longrightarrow> k = 0)"
    if "github w' = github w" "leetcode w' = leetcode w" "\<exists>e. r = Inl e"
    using that hd by (intro exI [of _ 0] exI [of _ "(tree h0, h0)"]) auto
  obtain r1 w1 where lc: "listCommits w = (r1, w1)" by (cases "listCommits w")
  note l1 = listCommits_cases [OF hd lc]
  show ?thesis
  proof (cases r1)
    case (Inl e)
    with lc run l1 show ?thesis by (intro zero) (auto simp: sync_def)
  next
    case (Inr commits)
    with l1 have commits: "commits = take 100 (history h0)" by auto
    obtain r2 w2 where ft: "fetchSubmissions True 0 [] mrt w1 = (r2, w2)"
      by (cases "fetchSubmissions True 0 [] mrt w1")
    note l2 = fetch_frame [OF ft]
    show ?thesis
    proof (cases r2)
      case (Inl e)
      with lc Inr commits cp ft run l1 l2 show ?thesis by (intro zero) (auto simp: sync_def)
    next
      case sbs: (Inr sbs)
      from fetch_result [OF ft [unfolded sbs]] l1
      have sbs_eq: "sbs = map ref_of (rev ?P)" by (simp add: pending_def)
      obtain r3 w3 where rg: "repos_get w2 = (r3, w3)" by (cases "repos_get w2")
      note l3 = repos_get_cases [OF rg]
      show ?thesis
      proof (cases r3)
        case (Inl e)
        with lc Inr commits cp ft sbs rg run l1 l2 l3 show ?thesis
          by (intro zero) (auto simp: sync_def)
      next
        case br: (Inr br)
        obtain r4 w4 where cl: "commitLoop cb br ci sbs (length sbs) (tree h0, h0) w3 = (r4, w4)"
          by (cases "commitLoop cb br ci sbs (length sbs) (tree h0, h0) w3")
        from lc Inr commits cp ft sbs rg br cl run
        have res: "w' = w4" "r = (case r4 of Inl e \<Rightarrow> Inl e | Inr x \<Rightarrow> Inr ())"
          by (auto simp: sync_def take_history split: sum.splits)
        from commitLoop_progress [OF cl] obtain k p where
          k: "k \<le> length sbs"
          and ch: "commit_chain cb (leetcode w3) ci (take k (rev (take (length sbs) sbs))) (tree h0, h0) = Some p"
          and g: "github w4 = (github w3)\<lparr>head := (if k = 0 then head (github w3) else Some (snd p))\<rparr>"
          and l: "leetcode w4 = leetcode w3"
          and rr: "(case r4 of Inr p' \<Rightarrow> k = length sbs \<and> p' = p | Inl e \<Rightarrow> k < length sbs)"
          by auto
        have w3: "github w3 = github w" "leetcode w3 = leetcode w" using l1 l2 l3 by simp_all
        have tk: "take k (rev (take (length sbs) sbs)) = map ref_of (take k ?P)"
          by (simp add: sbs_eq rev_map take_map)
        have len: "length sbs = length ?P" by (simp add: sbs_eq)
        have p0: "k = 0 \<Longrightarrow> p = (tree h0, h0)" using ch by simp
        have "github w' = (github w)\<lparr>head := Some (snd p)\<rparr>"
          using g w3 res hd p0 by (cases "k = 0") simp_all
        moreover have "commit_chain cb (leetcode w) ci (map ref_of (take k ?P)) (tree h0, h0) = Some p"
          using ch tk w3 by simp
        moreover have "r = Inr () \<longrightarrow> k = length ?P"
          using rr res len by (cases r4) simp_all
        moreover have "\<forall>e. r = Inl e \<and> k = length ?P \<longrightarrow> k = 0"
          using rr res len by (cases r4) simp_all
        ultimately show ?thesis using k len l w3 res
          by (intro exI [of _ k] exI [of _ p]) simp
      qed
    qed
  qed
qed

subsection \<open>A run on a working network\<close>

lemma sync_ok:
  assumes f: "faults w = []" and hd: "head (github w) = Some h0"
    and cp: "resolveCheckpoint (take 100 (history h0)) = Inr (ci, mrt)"
    and ch: "commit_chain cb (leetcode w) ci (map ref_of (pending mrt (leetcode w))) (tree h0, h0)
               = Some p"
  shows "\<exists>w' evs. sync cb w = (Inr (), w') \<and> github w' = (github w)\<lparr>head := Some (snd p)\<rparr>
           \<and> leetcode w' = leetcode w \<and> faults w' = []
           \<and> trace w' = trace w @ evs
                @ concat (map sync_events (map ref_of (pending mrt (leetcode w))))
           \<and> list_all (\<lambda>ev. \<not> host_write ev) evs"
proof -
  let ?P = "pending mrt (leetcode w)"
  let ?w1 = "w\<lparr>trace := trace w @ [ListCommits]\<rparr>"
  have lc: "listCommits w = (Inr (take 100 (history h0)), ?w1)"
    using f hd by (simp add: listCommits_def request_ok)
  have f1: "faults ?w1 = []" using f by simp
  from fetch_ok [OF f1, of True 0 "[]" mrt] obtain sbs w2 where
    ft: "fetchSubmissions True 0 [] mrt ?w1 = (Inr sbs, w2)" and f2: "faults w2 = []" by blast
  from fetch_frame [OF ft] obtain evs where
    g2: "github w2 = github w" and l2: "leetcode w2 = leetcode w"
    and t2: "trace w2 = trace w @ [ListCommits] @ evs"
    and e2: "list_all (\<lambda>ev. \<not> host_write ev) evs" by auto
  from fetch_result [OF ft] have sbs_eq: "sbs = map ref_of (rev ?P)" by (simp add: pending_def)
  let ?w3 = "w2\<lparr>trace := trace w2 @ [ReposGet]\<rparr>"
  have rg: "repos_get w2 = (Inr (default_branch (github w)), ?w3)"
    using f2 g2 by (simp add: repos_get_def request_ok)
  have "commit_chain cb (leetcode ?w3) ci (rev (take (length sbs) sbs)) (tree h0, h0) = Some p"
    using ch l2 by (simp add: sbs_eq rev_map)
  from commitLoop_ok [OF _ _ _ this, of "default_branch (github w)"] f2 g2
  obtain w4 where
    cl: "commitLoop cb (default_branch (github w)) ci sbs (length sbs) (tree h0, h0) ?w3
           = (Inr p, w4)"
    and f4: "faults w4 = []"
    and t4: "trace w4 = trace ?w3 @ concat (map sync_events (rev (take (length sbs) sbs)))"
    by auto
  have run: "sync cb w = (Inr (), w4)"
    using lc cp ft rg cl by (simp add: sync_def take_history)
  from sync_progress [OF hd cp run] obtain k p' where
    "k = length ?P" and "commit_chain cb (leetcode w) ci (map ref_of (take k ?P)) (tree h0, h0) = Some p'"
    and g4: "github w4 = (github w)\<lparr>head := Some (snd p')\<rparr>" and l4: "leetcode w4 = leetcode w"
    by auto
  with ch have "p' = p" by simp
  moreover have "trace w4 = trace w @ ([ListCommits] @ evs @ [ReposGet])
      @ concat (map sync_events (map ref_of ?P))"
    using t4 t2 by (simp add: sbs_eq rev_map)
  moreover have "list_all (\<lambda>ev. \<not> host_write ev) ([ListCommits] @ evs @ [ReposGet])"
    using e2 by simp
  ultimately show ?thesis using run g4 l4 f4 by blast
qed

subsection \<open>The commit a run creates and the checkpoint it leaves\<close>

lemma next_commit_fields:
  assumes "next_commit ci sb ptr = Some p"
  shows "parents (snd p) = [snd ptr]"
    and "fst p = tree (snd p)"
    and "message (snd p) = commit_message sb"
    and "author (snd p) = \<lparr>name = name ci, email = email ci,
                                date = iso_date_time (s_timestamp sb) @ ''Z''\<rparr>"
    and "committer (snd p) = author (snd p)"
    and "history (snd p) = snd p # history (snd ptr)"
    and "Date_parse (iso_date_time (s_timestamp sb) @ ''Z'')
             = Num (of_int (s_timestamp sb * 1000))"
proof -
  from assms obtain ext d da where
    t: "toISOString (s_timestamp sb * 1000) = Inr d" and g: "github_date d = Some da"
    and p: "p = (foldl upsert (fst ptr) (tree_entries ext sb),
                 GitCommit (commit_message sb)
                   \<lparr>name = name ci, email = email ci, date = da\<rparr>
                   \<lparr>name = name ci, email = email ci, date = da\<rparr>
                   (foldl upsert (fst ptr) (tree_entries ext sb)) [snd ptr])"
    by (auto simp: next_commit_def split: option.splits sum.splits)
  from commit_date [OF t g] have da: "da = iso_date_time (s_timestamp sb) @ ''Z''"
    and dp: "Date_parse da = Num (of_int (s_timestamp sb * 1000))" by blast+
  show "Date_parse (iso_date_time (s_timestamp sb) @ ''Z'') = Num (of_int (s_timestamp sb * 1000))"
    using dp unfolding da .
  show "parents (snd p) = [snd ptr]" "fst p = tree (snd p)" "message (snd p) = commit_message sb"
    "committer (snd p) = author (snd p)" "history (snd p) = snd p # history (snd ptr)"
    unfolding p by simp_all
  show "author (snd p) = \<lparr>name = name ci, email = email ci,
                                date = iso_date_time (s_timestamp sb) @ ''Z''\<rparr>"
    unfolding p da by simp
qed

lemma marker_scan:
  assumes "message c = CHR ''['' # rest"
  shows "resolveCheckpoint (c # older) =
           Inr (author c, number_div (Date_parse (date (committer c))) 1000)"
  using assms resolveCheckpoint_find [of "c # older"] by (simp add: is_sync_commit_iff)

lemma number_div_seconds: "number_div (Num (of_int (t * 1000))) 1000 = Num (of_int t)"
  by (simp add: number_div_def)

lemma checkpoint_next:
  assumes "next_commit ci sb ptr = Some p"
  shows "resolveCheckpoint (take 100 (history (snd p))) =
           Inr (\<lparr>name = name ci, email = email ci,
                  date = iso_date_time (s_timestamp sb) @ ''Z''\<rparr>,
                Num (of_int (s_timestamp sb)))"
proof -
  note f = next_commit_fields [OF assms]
  from f(3) have m: "message (snd p) = CHR ''['' # tl (commit_message sb)"
    by (simp add: commit_message_def)
  have "resolveCheckpoint (take 100 (history (snd p))) =
      Inr (author (snd p), number_div (Date_parse (date (committer (snd p)))) 1000)"
    unfolding take_history by (rule marker_scan [OF m])
  also have "date (committer (snd p)) = iso_date_time (s_timestamp sb) @ ''Z''"
    unfolding f(5) f(4) by simp
  finally show ?thesis unfolding f(7) number_div_seconds f(4) .
qed



lemma commit_chain_snoc:
  assumes "commit_chain cb lc ci (rs @ [r]) ptr = Some p"
  shows "\<exists>q sb. commit_chain cb lc ci rs ptr = Some q \<and> enrich cb lc r = Some sb
           \<and> next_commit ci sb q = Some p"
  using assms by (auto simp: commit_chain_append split: option.splits)

lemma find_distinct:
  "distinct (map f xs) \<Longrightarrow> e \<in> set xs \<Longrightarrow> find (\<lambda>s. f s = f e) xs = Some e"
proof (induction xs)
  case Nil
  then show ?case by simp
next
  case (Cons x xs)
  then show ?case by (auto simp: image_iff)
qed

lemma enrich_timestamp:
  assumes "distinct (map sub_id (all_submissions lc))" and "e \<in> set (all_submissions lc)"
    and "enrich cb lc (ref_of e) = Some sb"
  shows "s_timestamp sb = timestamp e"
proof -
  from find_distinct [OF assms(1,2)]
  have "find (\<lambda>s. sub_id s = ref_id (ref_of e)) (all_submissions lc) = Some e"
    by (simp add: ref_of_def)
  with assms(3) show ?thesis
    by (auto simp: enrich_def Let_def split: option.splits)
qed

subsection \<open>The pending list behind a checkpoint\<close>

lemma newer_Num: "newer (Num (of_int c)) e \<longleftrightarrow> c < timestamp e"
  by (auto simp: newer_def number_le_def)

lemma newer_mono: "newer m x \<Longrightarrow> timestamp x \<le> timestamp y \<Longrightarrow> newer m y"
  by (cases m) (auto simp: newer_def number_le_def)

lemma takeWhile_filter_sorted:
  "sorted_wrt (\<lambda>a b. timestamp b < timestamp a) xs \<Longrightarrow>
     takeWhile (newer m) xs = filter (newer m) xs"
proof (induction xs)
  case Nil
  show ?case by simp
next
  case (Cons x xs)
  show ?case
  proof (cases "newer m x")
    case True
    with Cons show ?thesis by simp
  next
    case False
    have "\<not> newer m y" if "y \<in> set xs" for y
    proof
      assume "newer m y"
      moreover from Cons.prems that have "timestamp y \<le> timestamp x" by auto
      ultimately have "newer m x" by (rule newer_mono)
      with False show False ..
    qed
    then have "filter (newer m) xs = []" by (simp add: filter_empty_conv)
    with False show ?thesis by simp
  qed
qed

lemma sorted_filter_take:
  "sorted_wrt (\<lambda>a b. timestamp b < timestamp a) xs \<Longrightarrow> j < length xs \<Longrightarrow>
     filter (\<lambda>x. timestamp (xs ! j) < timestamp x) xs = take j xs"
proof (induction xs arbitrary: j)
  case Nil
  then show ?case by simp
next
  case (Cons x xs)
  show ?case
  proof (cases j)
    case 0
    from Cons.prems have "\<forall>y \<in> set xs. \<not> timestamp x < timestamp y" by auto
    then have "filter (\<lambda>y. timestamp x < timestamp y) xs = []" by (simp add: filter_empty_conv)
    with 0 show ?thesis by simp
  next
    case (Suc i)
    with Cons.prems have i: "i < length xs" and s: "sorted_wrt (\<lambda>a b. timestamp b < timestamp a) xs"
      by simp_all
    from Cons.prems i have "timestamp (xs ! i) < timestamp x" by simp
    with Cons.IH [OF s i] Suc show ?thesis by simp
  qed
qed

lemma pending_resume:
  assumes srt: "newest_first lc" and k: "1 \<le> k" "k \<le> length (pending m lc)"
  shows "pending (Num (of_int (timestamp (pending m lc ! (k - 1))))) lc = drop k (pending m lc)"
proof -
  let ?all = "all_submissions lc"
  let ?F = "filter accepted (filter (newer m) ?all)"
  let ?N = "length ?F"
  from srt have s: "sorted_wrt (\<lambda>a b. timestamp b < timestamp a) ?all"
    by (simp add: newest_first_def)
  have P: "pending m lc = rev ?F"
    by (simp add: pending_def takeWhile_filter_sorted [OF s])
  from k P have kN: "k \<le> ?N" by simp
  define e where "e = ?F ! (?N - k)"
  have idx: "?N - k < ?N" using k kN by simp
  have e: "pending m lc ! (k - 1) = e"
    using k kN unfolding P e_def by (simp add: rev_nth)
  have eF: "e \<in> set ?F" unfolding e_def using idx by (rule nth_mem)
  then have ea: "newer m e" by simp
  have sF: "sorted_wrt (\<lambda>a b. timestamp b < timestamp a) ?F"
    using s by (simp add: sorted_wrt_filter)
  have "filter accepted (filter (newer (Num (of_int (timestamp e)))) ?all)
          = filter (\<lambda>x. timestamp e < timestamp x) ?F"
  proof -
    have "newer m x" if "timestamp e < timestamp x" for x
      using ea that by (intro newer_mono [of m e x]) simp_all
    then show ?thesis
      by (auto simp: newer_Num intro!: filter_cong)
  qed
  also have "\<dots> = take (?N - k) ?F"
    unfolding e_def by (rule sorted_filter_take [OF sF idx])
  finally have "pending (Num (of_int (timestamp e))) lc = rev (take (?N - k) ?F)"
    by (simp add: pending_def takeWhile_filter_sorted [OF s])
  also have "\<dots> = drop k (rev ?F)"
    using kN by (simp add: rev_take)
  finally have "pending (Num (of_int (timestamp e))) lc = drop k (pending m lc)"
    unfolding P .
  then show ?thesis unfolding e .
qed

lemma filter_takeWhile_after_first:
  assumes "filter accepted (takeWhile A xs) \<noteq> []"
  shows "filter accepted
           (takeWhile (\<lambda>x. timestamp (hd (filter accepted (takeWhile A xs))) < timestamp x) xs) = []"
  using assms
proof (induction xs)
  case Nil
  then show ?case by simp
next
  case (Cons x xs)
  show ?case
  proof (cases "A x")
    case False
    with Cons.prems show ?thesis by simp
  next
    case True
    show ?thesis
    proof (cases "accepted x")
      case acc: True
      with True show ?thesis by simp
    next
      case False
      with True Cons show ?thesis by simp
    qed
  qed
qed

lemma pending_done:
  assumes "pending m lc \<noteq> []"
  shows "pending (Num (of_int (timestamp (last (pending m lc))))) lc = []"
proof -
  let ?F = "filter accepted (takeWhile (newer m) (all_submissions lc))"
  from assms have ne: "?F \<noteq> []" by (simp add: pending_def)
  then have "last (pending m lc) = hd ?F" by (simp add: pending_def last_rev)
  moreover have "newer (Num (of_int c)) = (\<lambda>x. c < timestamp x)" for c
    by (rule ext) (simp add: newer_Num)
  ultimately show ?thesis
    using filter_takeWhile_after_first [OF ne] by (simp add: pending_def)
qed

subsection \<open>The created commits\<close>

lemma created_chain:
  "commit_chain cb lc ci rs ptr = Some p \<Longrightarrow>
     length (created cb lc ci rs ptr) = length rs
     \<and> snd p = last (snd ptr # created cb lc ci rs ptr)
     \<and> history (snd p) = rev (created cb lc ci rs ptr) @ history (snd ptr)
     \<and> (fst ptr = tree (snd ptr) \<longrightarrow> fst p = tree (snd p))"
proof (induction rs arbitrary: ptr)
  case Nil
  then show ?case by simp
next
  case (Cons r rs)
  from Cons.prems obtain sb p1 where e: "enrich cb lc r = Some sb"
    and n: "next_commit ci sb ptr = Some p1" and c: "commit_chain cb lc ci rs p1 = Some p"
    by (auto split: option.splits)
  note f = next_commit_fields [OF n]
  note t1 = f(2) and h1 = f(6)
  from Cons.IH [OF c] t1 have
    a: "length (created cb lc ci rs p1) = length rs"
    and b: "snd p = last (snd p1 # created cb lc ci rs p1)"
    and d: "history (snd p) = rev (created cb lc ci rs p1) @ history (snd p1)"
    and t: "fst p = tree (snd p)" by blast+
  have cr: "created cb lc ci (r # rs) ptr = snd p1 # created cb lc ci rs p1"
    using e n by simp
  show ?case unfolding cr using a b d t h1 by simp
qed

lemma created_length: "commit_chain cb lc ci rs ptr = Some p \<Longrightarrow>
    length (created cb lc ci rs ptr) = length rs"
  by (rule created_chain [THEN conjunct1])

lemma created_last: "commit_chain cb lc ci rs ptr = Some p \<Longrightarrow>
    snd p = last (snd ptr # created cb lc ci rs ptr)"
  by (rule created_chain [THEN conjunct2, THEN conjunct1])

lemma created_history: "commit_chain cb lc ci rs ptr = Some p \<Longrightarrow>
    history (snd p) = rev (created cb lc ci rs ptr) @ history (snd ptr)"
  by (rule created_chain [THEN conjunct2, THEN conjunct2, THEN conjunct1])


lemma created_fields:
  "commit_chain cb lc ci rs ptr = Some p \<Longrightarrow> i < length rs \<Longrightarrow>
     \<exists>sb. enrich cb lc (rs ! i) = Some sb
       \<and> parents (created cb lc ci rs ptr ! i) = [(snd ptr # created cb lc ci rs ptr) ! i]
       \<and> author (created cb lc ci rs ptr ! i) =
           \<lparr>name = name ci, email = email ci, date = iso_date_time (s_timestamp sb) @ ''Z''\<rparr>
       \<and> committer (created cb lc ci rs ptr ! i) = author (created cb lc ci rs ptr ! i)
       \<and> message (created cb lc ci rs ptr ! i) = commit_message sb"
proof (induction rs arbitrary: ptr i)
  case Nil
  then show ?case by simp
next
  case (Cons r rs)
  from Cons.prems obtain sb p1 where e: "enrich cb lc r = Some sb"
    and n: "next_commit ci sb ptr = Some p1" and c: "commit_chain cb lc ci rs p1 = Some p"
    by (auto split: option.splits)
  note f = next_commit_fields [OF n]
  have cr: "created cb lc ci (r # rs) ptr = snd p1 # created cb lc ci rs p1"
    using e n by simp
  show ?case
  proof (cases i)
    case 0
    from e 0 f(1,3,4,5) show ?thesis unfolding cr by simp
  next
    case (Suc j)
    with Cons.prems have "j < length rs" by simp
    from Cons.IH [OF c this] Suc show ?thesis unfolding cr by simp
  qed
qed

lemma pending_subset: "set (pending m lc) \<subseteq> set (all_submissions lc)"
  by (auto simp: pending_def dest: set_takeWhileD)

lemma pending_after:
  assumes "newest_first lc \<or> k = length (pending m lc)" and "1 \<le> k" "k \<le> length (pending m lc)"
  shows "pending (Num (of_int (timestamp (pending m lc ! (k - 1))))) lc = drop k (pending m lc)"
proof (cases "k = length (pending m lc)")
  case True
  with assms have ne: "pending m lc \<noteq> []" by auto
  then have "last (pending m lc) = pending m lc ! (k - 1)"
    using True by (simp add: last_conv_nth)
  with pending_done [OF ne] True show ?thesis by simp
next
  case False
  with assms have "newest_first lc" by simp
  from pending_resume [OF this assms(2,3)] show ?thesis .
qed

lemma checkpoint_after:
  assumes dist: "distinct (map sub_id (all_submissions lc))"
    and cp: "resolveCheckpoint (take 100 (history h0)) = Inr (ci, mrt)"
    and k: "k \<le> length (pending mrt lc)"
    and srt: "newest_first lc \<or> k = length (pending mrt lc)"
    and ch: "commit_chain cb lc ci (map ref_of (take k (pending mrt lc))) (tree h0, h0) = Some p"
  shows "\<exists>ci'. resolveCheckpoint (take 100 (history (snd p))) =
             Inr (ci', if k = 0 then mrt else Num (of_int (timestamp (pending mrt lc ! (k - 1)))))
           \<and> name ci' = name ci \<and> email ci' = email ci
           \<and> pending (if k = 0 then mrt else Num (of_int (timestamp (pending mrt lc ! (k - 1))))) lc
               = drop k (pending mrt lc)
           \<and> (tree (snd p), snd p) = p"
proof (cases k)
  case 0
  with ch have "p = (tree h0, h0)" by simp
  with cp 0 show ?thesis by simp
next
  case (Suc j)
  let ?P = "pending mrt lc"
  from Suc k have j: "j < length ?P" by simp
  then have tk: "take k ?P = take j ?P @ [?P ! j]"
    unfolding Suc by (rule take_Suc_conv_app_nth)
  from ch [unfolded tk] obtain q sb where
    e: "enrich cb lc (ref_of (?P ! j)) = Some sb" and n: "next_commit ci sb q = Some p"
    using commit_chain_snoc [of cb lc ci "map ref_of (take j ?P)" "ref_of (?P ! j)" "(tree h0, h0)" p]
    by auto
  from j pending_subset have "?P ! j \<in> set (all_submissions lc)" by (auto dest: nth_mem)
  from enrich_timestamp [OF dist this e] have ts: "s_timestamp sb = timestamp (?P ! j)" .
  from next_commit_fields(2) [OF n] have tr: "(tree (snd p), snd p) = p"
    by (cases p) simp
  from pending_after [OF srt _ k] Suc
  have "pending (Num (of_int (timestamp (?P ! j)))) lc = drop k ?P" by simp
  with checkpoint_next [OF n] ts tr Suc show ?thesis by simp
qed

subsection \<open>A run with nothing pending\<close>

lemma checkpoint_exists:
  "\<exists>ci mrt. resolveCheckpoint (take 100 (history h0)) = Inr (ci, mrt)"
  unfolding take_history
  by (cases "scanCommits (h0 # take 99 (tl (history h0)))
               (author ((h0 # take 99 (tl (history h0))) !
                  (length (h0 # take 99 (tl (history h0))) - 1)), Num 0)")
     (simp add: resolveCheckpoint_def)

lemma sync_Inr_head:
  assumes "sync cb w = (Inr u, w1)"
  shows "\<exists>h0. head (github w) = Some h0"
proof (cases "head (github w)")
  case None
  from sync_empty_history [OF None, of cb] assms show ?thesis
    by (auto split: prod.splits sum.splits)
next
  case (Some h0)
  then show ?thesis by simp
qed

lemma sync_no_pending:
  assumes hd: "head (github w) = Some h0"
    and cp: "resolveCheckpoint (take 100 (history h0)) = Inr (ci, mrt)"
    and np: "pending mrt (leetcode w) = []"
    and run: "sync cb w = (r, w')"
  shows "github w' = github w \<and> leetcode w' = leetcode w
         \<and> (\<exists>evs. trace w' = trace w @ evs \<and> list_all (\<lambda>ev. \<not> host_write ev) evs)"
proof -
  obtain r1 w1 where lc: "listCommits w = (r1, w1)" by (cases "listCommits w")
  note l1 = listCommits_cases [OF hd lc]
  show ?thesis
  proof (cases r1)
    case (Inl e)
    with lc run l1 show ?thesis by (auto simp: sync_def)
  next
    case (Inr commits)
    with l1 have commits: "commits = take 100 (history h0)" by auto
    obtain r2 w2 where ft: "fetchSubmissions True 0 [] mrt w1 = (r2, w2)"
      by (cases "fetchSubmissions True 0 [] mrt w1")
    from fetch_frame [OF ft] l1 obtain evs where
      g2: "github w2 = github w" and l2: "leetcode w2 = leetcode w"
      and t2: "trace w2 = trace w @ (ListCommits # evs)"
      and e2: "list_all (\<lambda>ev. \<not> host_write ev) (ListCommits # evs)" by auto
    show ?thesis
    proof (cases r2)
      case (Inl e)
      with lc Inr commits cp ft run g2 l2 t2 e2 show ?thesis by (auto simp: sync_def)
    next
      case sbs: (Inr sbs)
      from fetch_result [OF ft [unfolded sbs]] l1 np
      have sbs_eq: "sbs = []" by (simp add: pending_def)
      obtain r3 w3 where rg: "repos_get w2 = (r3, w3)" by (cases "repos_get w2")
      from repos_get_cases [OF rg] g2 l2 t2 e2 have
        g3: "github w3 = github w" and l3: "leetcode w3 = leetcode w"
        and t3: "trace w3 = trace w @ (ListCommits # evs @ [ReposGet])"
        and e3: "list_all (\<lambda>ev. \<not> host_write ev) (ListCommits # evs @ [ReposGet])" by auto
      from lc Inr commits cp ft sbs sbs_eq rg run have "w' = w3"
        by (auto simp: sync_def take_history split: sum.splits)
      with g3 l3 t3 e3 show ?thesis by blast
    qed
  qed
qed

subsection \<open>The pending list in commit order\<close>

lemma pending_ascending:
  assumes "newest_first lc"
  shows "sorted_wrt (<) (map timestamp (pending m lc))"
proof -
  from assms have s: "sorted_wrt (\<lambda>a b. timestamp b < timestamp a) (all_submissions lc)"
    by (simp add: newest_first_def)
  then have "sorted_wrt (\<lambda>a b. timestamp b < timestamp a)
               (filter accepted (filter (newer m) (all_submissions lc)))"
    by (simp add: sorted_wrt_filter)
  then show ?thesis
    by (simp add: pending_def takeWhile_filter_sorted [OF s] sorted_wrt_rev sorted_wrt_map rev_map [symmetric])
qed

lemma created_pending_fields:
  assumes dist: "distinct (map sub_id (all_submissions lc))"
    and ch: "commit_chain cb lc ci (map ref_of (pending m lc)) ptr = Some p"
    and i: "i < length (pending m lc)"
  shows "parents (created cb lc ci (map ref_of (pending m lc)) ptr ! i)
           = [(snd ptr # created cb lc ci (map ref_of (pending m lc)) ptr) ! i]
         \<and> author (created cb lc ci (map ref_of (pending m lc)) ptr ! i)
           = \<lparr>name = name ci, email = email ci,
              date = iso_date_time (timestamp (pending m lc ! i)) @ ''Z''\<rparr>
         \<and> committer (created cb lc ci (map ref_of (pending m lc)) ptr ! i)
           = author (created cb lc ci (map ref_of (pending m lc)) ptr ! i)
         \<and> is_sync_commit (created cb lc ci (map ref_of (pending m lc)) ptr ! i)"
proof -
  let ?P = "pending m lc"
  let ?cs = "created cb lc ci (map ref_of ?P) ptr"
  from i have i': "i < length (map ref_of ?P)" by simp
  from created_fields [OF ch i'] i obtain sb where
    e: "enrich cb lc (ref_of (?P ! i)) = Some sb"
    and pa: "parents (?cs ! i) = [(snd ptr # ?cs) ! i]"
    and au: "author (?cs ! i) = \<lparr>name = name ci, email = email ci,
                                  date = iso_date_time (s_timestamp sb) @ ''Z''\<rparr>"
    and co: "committer (?cs ! i) = author (?cs ! i)"
    and me: "message (?cs ! i) = commit_message sb" by auto
  from i pending_subset have "?P ! i \<in> set (all_submissions lc)" by (auto dest: nth_mem)
  from enrich_timestamp [OF dist this e] have ts: "s_timestamp sb = timestamp (?P ! i)" .
  from me have "is_sync_commit (?cs ! i)"
    by (simp add: is_sync_commit_iff commit_message_def)
  with pa au co ts show ?thesis by simp
qed

subsection \<open>Entries that can be committed, and the example run\<close>

lemma next_commit_defined:
  assumes "extension_of (s_lang sb) \<noteq> None" and "iso_range (s_timestamp sb)"
  shows "next_commit ci sb ptr \<noteq> None"
proof -
  from assms(2) valid_commit_date [of "s_timestamp sb"] obtain d where
    "toISOString (s_timestamp sb * 1000) = Inr d"
    "github_date d = Some (iso_date_time (s_timestamp sb) @ ''Z'')"
    by (auto simp: iso_range_def)
  with assms(1) show ?thesis by (auto simp: next_commit_def)
qed

lemma commit_chain_defined:
  "list_all (committable cb lc) rs \<Longrightarrow> commit_chain cb lc ci rs ptr \<noteq> None"
proof (induction rs arbitrary: ptr)
  case Nil
  show ?case by simp
next
  case (Cons r rs)
  from Cons.prems obtain sb where e: "enrich cb lc r = Some sb"
    and l: "extension_of (s_lang sb) \<noteq> None" and t: "iso_range (s_timestamp sb)"
    by (auto simp: committable_def split: option.splits)
  from next_commit_defined [OF l t, of ci ptr] obtain p where "next_commit ci sb ptr = Some p"
    by auto
  with e Cons show ?case by simp
qed

lemma two_go_facts:
  "distinct (map sub_id (all_submissions (leetcode (example_world two_go fs))))"
  "newest_first (leetcode (example_world two_go fs))"
  "head (github (example_world two_go fs)) = Some initial_commit"
  "resolveCheckpoint (take 100 (history initial_commit)) = Inr (example_user, Num 0)"
  "pending (Num 0) (leetcode (example_world two_go fs)) =
     [entry 1 ''two-sum'' 1672531200 ''Accepted'' ''golang'',
      entry 2 ''two-sum'' 1672617600 ''Accepted'' ''golang'']"
  by (simp_all add: example_world_def two_go_def entry_def newest_first_def initial_commit_def
      resolveCheckpoint_def startsWith_def COMMIT_MESSAGE_def pending_def newer_def
      number_le_def accepted_def)

lemma two_go_committable:
  "commit_chain example_collaborators (leetcode (example_world two_go fs)) example_user
     (map ref_of (pending (Num 0) (leetcode (example_world two_go fs))))
     (tree initial_commit, initial_commit) \<noteq> None"
  unfolding two_go_facts(5)
  by (rule commit_chain_defined)
     (simp add: committable_def enrich_def example_world_def two_go_def entry_def ref_of_def
       extension_of_def LANG_TO_EXTENSION_def iso_range_def)


lemma example_run_ok: "fst (sync example_collaborators (example_world two_go [])) = Inr ()"
proof -
  from two_go_committable [of "[]"] obtain p where
    "commit_chain example_collaborators (leetcode (example_world two_go [])) example_user
       (map ref_of (pending (Num 0) (leetcode (example_world two_go []))))
       (tree initial_commit, initial_commit) = Some p" by auto
  from sync_ok [OF _ two_go_facts(3) two_go_facts(4) this] show ?thesis
    by (auto simp: example_world_def)
qed

lemma example_dates:
  "iso_date_time 1672531200 = ''2023-01-01T00:00:00''"
  "iso_date_time 1672617600 = ''2023-01-02T00:00:00''"
  by code_simp+

subsection \<open>The listing loop, page by page\<close>

lemma listing_trace_0: "listing_trace first offset 0 = []"
  by (simp add: listing_trace_def)

lemma listing_trace_Suc:
  "listing_trace first offset (Suc k) =
     (if first then [] else [Delay 1000]) @ [PostSubmissionList offset]
     @ listing_trace False (offset + 20) k"
proof -
  have "[0..<Suc k] = 0 # [Suc 0..<Suc k]" by (rule upt_conv_Cons) simp
  also have "\<dots> = 0 # map Suc [0..<k]" by (simp only: map_Suc_upt)
  finally have "[0..<Suc k] = 0 # map Suc [0..<k]" .
  then show ?thesis by (simp add: listing_trace_def comp_def add.assoc del: upt_Suc)
qed

lemma takeWhile_shorter: "\<not> list_all P xs \<Longrightarrow> length (takeWhile P xs) < length xs"
  by (induction xs) auto

lemma page_count_stop:
  assumes "\<not> list_all P (take 20 xs)"
  shows "page_count P xs = 1"
proof -
  have tw: "takeWhile P xs = takeWhile P (take 20 xs)" by (rule takeWhile_take_stop [OF assms])
  have "length (takeWhile P (take 20 xs)) < length (take 20 xs)"
    by (rule takeWhile_shorter [OF assms])
  then have "length (takeWhile P xs) < 20" "length (takeWhile P xs) < length xs"
    unfolding tw by simp_all
  then show ?thesis by (simp add: page_count_def)
qed

lemma page_count_last:
  assumes "list_all P (take 20 xs)" and "length xs \<le> 20"
  shows "page_count P xs = 1"
proof -
  from assms have tw: "takeWhile P xs = xs" by (simp add: takeWhile_all)
  have "(length xs + 19) div 20 \<le> 1" using assms(2) by presburger
  then show ?thesis unfolding page_count_def tw by (simp add: max_def)
qed

lemma page_count_next:
  assumes "list_all P (take 20 xs)" and "20 < length xs"
  shows "page_count P xs = Suc (page_count P (drop 20 xs))"
proof -
  have tw: "takeWhile P xs = take 20 xs @ takeWhile P (drop 20 xs)"
    by (rule takeWhile_take_continue [OF assms(1)])
  define n where "n = length (takeWhile P (drop 20 xs))"
  define m where "m = length (drop 20 xs)"
  have l: "length (takeWhile P xs) = 20 + n" using assms(2) by (simp add: tw n_def)
  have lx: "length xs = 20 + m" "0 < m" using assms(2) by (simp_all add: m_def)
  have nm: "n \<le> m" unfolding n_def m_def by (rule length_takeWhile_le)
  have a: "(20 + n) div 20 = Suc (n div 20)" by simp
  have b: "(20 + m + 19) div 20 = Suc ((m + 19) div 20)" by simp
  have c: "1 \<le> (m + 19) div 20" using lx(2) by simp
  show ?thesis
    unfolding page_count_def l lx n_def [symmetric] m_def [symmetric] a b
    using c nm by (simp add: max_def)
qed

lemma world_faults_id: "faults w = fs \<Longrightarrow> w\<lparr>faults := fs\<rparr> = w"
  by (cases w) simp

lemma take_tl_all: "list_all P (take (Suc j) xs) \<Longrightarrow> list_all P (take j (tl xs))"
  by (cases xs) simp_all

lemma fetch_step:
  assumes f: "faults w = [] \<or> hd (faults w) = None"
    and n: "list_all (newer mrt) (take 20 (drop offset (all_submissions (leetcode w))))"
    and h: "offset + 20 < length (all_submissions (leetcode w))"
  shows "fetchSubmissions first offset sbs mrt w =
           fetchSubmissions False (offset + 20)
             (sbs @ map ref_of (filter accepted (take 20 (drop offset (all_submissions (leetcode w))))))
             mrt
             (w\<lparr>faults := tl (faults w),
                trace := trace w @ (if first then [] else [Delay 1000]) @ [PostSubmissionList offset]\<rparr>)"
proof -
  let ?w0 = "if first then w else delay 1000 w"
  let ?page = "take 20 (drop offset (all_submissions (leetcode w)))"
  have f0: "faults ?w0 = map Some [] @ faults w" by (simp add: delay_def)
  have g: "getSubmissions offset (if first then 0 else 5) 0 ?w0 =
             (Inr (page_at (leetcode ?w0) offset),
              ?w0\<lparr>faults := tl (faults w),
                   trace := trace ?w0 @ retry_trace (PostSubmissionList offset) 0 (length ([] :: nat list))
                            @ [PostSubmissionList offset]\<rparr>)"
    by (rule getSubmissions_retry [OF f0 f]) simp
  have p: "submissions (page_at (leetcode ?w0) offset) = ?page"
    "hasNext (page_at (leetcode ?w0) offset)"
    using h by (simp_all add: page_at_def delay_def)
  have a: "addToSubmissions ?page sbs mrt = (True, sbs @ map ref_of (filter accepted ?page))"
    using n by (simp add: addToSubmissions_closed takeWhile_all)
  show ?thesis
    unfolding fetchSubmissions.simps [of first offset sbs mrt w] g
    using p a by (cases first) (simp_all add: retry_trace_0 delay_def)
qed

lemma fetch_pages:
  assumes "list_all (\<lambda>f. f = None) (take j (faults w))"
    and "list_all (newer mrt) (take (20 * j) (drop offset (all_submissions (leetcode w))))"
    and "offset + 20 * j < length (all_submissions (leetcode w))"
  shows "fetchSubmissions first offset sbs mrt w =
           fetchSubmissions (first \<and> j = 0) (offset + 20 * j)
             (sbs @ map ref_of (filter accepted
                (take (20 * j) (drop offset (all_submissions (leetcode w)))))) mrt
             (w\<lparr>faults := drop j (faults w), trace := trace w @ listing_trace first offset j\<rparr>)"
  using assms
proof (induction j arbitrary: first offset sbs w)
  case 0
  show ?case by (simp add: listing_trace_0)
next
  case (Suc j)
  let ?all = "all_submissions (leetcode w)"
  let ?page = "take 20 (drop offset ?all)"
  let ?w1 = "w\<lparr>faults := tl (faults w),
                trace := trace w @ (if first then [] else [Delay 1000]) @ [PostSubmissionList offset]\<rparr>"
  have sp: "take (20 * Suc j) (drop offset ?all) = ?page @ take (20 * j) (drop (offset + 20) ?all)"
    by (simp add: take_add add.commute)
  from Suc.prems(1) have f: "faults w = [] \<or> hd (faults w) = None"
    by (cases "faults w") simp_all
  from Suc.prems(2) have n: "list_all (newer mrt) ?page"
    and n': "list_all (newer mrt) (take (20 * j) (drop (offset + 20) (all_submissions (leetcode ?w1))))"
    unfolding sp by simp_all
  from Suc.prems(3) have h: "offset + 20 < length ?all"
    and h': "offset + 20 + 20 * j < length (all_submissions (leetcode ?w1))" by simp_all
  have f': "list_all (\<lambda>f. f = None) (take j (faults ?w1))"
    using take_tl_all [OF Suc.prems(1)] by simp
  have "fetchSubmissions first offset sbs mrt w =
          fetchSubmissions False (offset + 20) (sbs @ map ref_of (filter accepted ?page)) mrt ?w1"
    by (rule fetch_step [OF f n h])
  also have "\<dots> = fetchSubmissions (False \<and> j = 0) (offset + 20 + 20 * j)
             ((sbs @ map ref_of (filter accepted ?page)) @ map ref_of (filter accepted
                (take (20 * j) (drop (offset + 20) (all_submissions (leetcode ?w1)))))) mrt
             (?w1\<lparr>faults := drop j (faults ?w1),
                   trace := trace ?w1 @ listing_trace False (offset + 20) j\<rparr>)"
    by (rule Suc.IH [OF f' n' h'])
  finally show ?case
    unfolding sp by (simp add: listing_trace_Suc drop_Suc add.assoc)
qed

lemma fetch_final:
  assumes f: "faults w = [] \<or> hd (faults w) = None"
    and n: "\<not> list_all (newer mrt) (take 20 (drop offset (all_submissions (leetcode w))))
            \<or> \<not> offset + 20 < length (all_submissions (leetcode w))"
  shows "fetchSubmissions first offset sbs mrt w =
           (Inr (sbs @ map ref_of (filter accepted
                   (takeWhile (newer mrt) (take 20 (drop offset (all_submissions (leetcode w))))))),
            w\<lparr>faults := tl (faults w),
               trace := trace w @ (if first then [] else [Delay 1000]) @ [PostSubmissionList offset]\<rparr>)"
proof -
  let ?w0 = "if first then w else delay 1000 w"
  define page where "page = take 20 (drop offset (all_submissions (leetcode w)))"
  define response where "response = page_at (leetcode ?w0) offset"
  have f0: "faults ?w0 = map Some [] @ faults w" by (simp add: delay_def)
  have g: "getSubmissions offset (if first then 0 else 5) 0 ?w0 =
             (Inr response,
              ?w0\<lparr>faults := tl (faults w),
                   trace := trace ?w0 @ retry_trace (PostSubmissionList offset) 0 (length ([] :: nat list))
                            @ [PostSubmissionList offset]\<rparr>)"
    unfolding response_def by (rule getSubmissions_retry [OF f0 f]) simp
  have p: "submissions response = page"
    "hasNext response = (offset + 20 < length (all_submissions (leetcode w)))"
    by (simp_all add: response_def page_def page_at_def delay_def)
  have a: "addToSubmissions page sbs mrt =
      (list_all (newer mrt) page, sbs @ map ref_of (filter accepted (takeWhile (newer mrt) page)))"
    by (rule addToSubmissions_closed)
  from n have n': "\<not> list_all (newer mrt) page \<or> \<not> hasNext response"
    unfolding p page_def .
  have w1: "?w0\<lparr>faults := tl (faults w),
                 trace := trace ?w0 @ retry_trace (PostSubmissionList offset) 0 (length ([] :: nat list))
                          @ [PostSubmissionList offset]\<rparr>
            = w\<lparr>faults := tl (faults w),
                 trace := trace w @ (if first then [] else [Delay 1000]) @ [PostSubmissionList offset]\<rparr>"
    by (simp add: retry_trace_0 delay_def)
  show ?thesis
    unfolding fetchSubmissions.simps [of first offset sbs mrt w] g w1 page_def [symmetric]
    using p(1) a n' by (cases "list_all (newer mrt) page") simp_all
qed

lemma fetch_listing:
  assumes "list_all (\<lambda>f. f = None) (take (pages_read mrt (leetcode w) offset) (faults w))"
  shows "fetchSubmissions first offset sbs mrt w =
           (Inr (sbs @ map ref_of (filter accepted
                   (takeWhile (newer mrt) (drop offset (all_submissions (leetcode w)))))),
            w\<lparr>faults := drop (pages_read mrt (leetcode w) offset) (faults w),
               trace := trace w @ listing_trace first offset (pages_read mrt (leetcode w) offset)\<rparr>)"
  using assms
proof (induction "length (all_submissions (leetcode w)) - offset" arbitrary: first offset sbs w
    rule: less_induct)
  case less
  let ?all = "all_submissions (leetcode w)"
  let ?rest = "drop offset ?all"
  let ?page = "take 20 ?rest"
  let ?w1 = "w\<lparr>faults := tl (faults w),
                trace := trace w @ (if first then [] else [Delay 1000]) @ [PostSubmissionList offset]\<rparr>"
  have one: "listing_trace first offset (Suc 0) =
      (if first then [] else [Delay 1000]) @ [PostSubmissionList offset]"
    by (simp add: listing_trace_Suc listing_trace_0)
  show ?case
  proof (cases "list_all (newer mrt) ?page \<and> offset + 20 < length ?all")
    case False
    then have n: "\<not> list_all (newer mrt) ?page \<or> \<not> offset + 20 < length ?all" by blast
    have pr: "pages_read mrt (leetcode w) offset = Suc 0"
    proof (cases "list_all (newer mrt) ?page")
      case False
      from page_count_stop [OF this] show ?thesis by (simp add: pages_read_def)
    next
      case True
      with n have "length ?rest \<le> 20" by simp
      from page_count_last [OF True this] show ?thesis by (simp add: pages_read_def)
    qed
    have tw: "takeWhile (newer mrt) ?rest = takeWhile (newer mrt) ?page"
    proof (cases "list_all (newer mrt) ?page")
      case False
      then show ?thesis by (rule takeWhile_take_stop)
    next
      case True
      with n have "length ?rest \<le> 20" by simp
      then show ?thesis by simp
    qed
    from less.prems have f: "faults w = [] \<or> hd (faults w) = None"
      unfolding pr by (cases "faults w") simp_all
    show ?thesis
      unfolding pr one tw fetch_final [OF f n] by (simp add: drop_Suc)
  next
    case True
    then have n: "list_all (newer mrt) ?page" and h: "offset + 20 < length ?all" by simp_all
    from h have lr: "20 < length ?rest" by simp
    have d: "drop 20 ?rest = drop (offset + 20) ?all" by (simp add: add.commute)
    have pr: "pages_read mrt (leetcode w) offset = Suc (pages_read mrt (leetcode ?w1) (offset + 20))"
      using page_count_next [OF n lr] unfolding pages_read_def d by simp
    from less.prems have f: "faults w = [] \<or> hd (faults w) = None"
      unfolding pr by (cases "faults w") simp_all
    have f': "list_all (\<lambda>f. f = None) (take (pages_read mrt (leetcode ?w1) (offset + 20)) (faults ?w1))"
      using take_tl_all [OF less.prems [unfolded pr]] by simp
    have m: "length (all_submissions (leetcode ?w1)) - (offset + 20) < length ?all - offset"
      using h by simp
    have tw: "takeWhile (newer mrt) ?rest = ?page @ takeWhile (newer mrt) (drop (offset + 20) ?all)"
      using takeWhile_take_continue [OF n] unfolding d .
    have "fetchSubmissions first offset sbs mrt w =
          fetchSubmissions False (offset + 20) (sbs @ map ref_of (filter accepted ?page)) mrt ?w1"
      by (rule fetch_step [OF f n h])
    also note less.hyps [OF m f']
    finally show ?thesis
      unfolding tw pr by (simp add: listing_trace_Suc drop_Suc)
  qed
qed

subsection \<open>Later pages of a listing\<close>

lemma fetch_pages_then:
  assumes f: "faults w = replicate j None @ fs"
    and n: "list_all (newer mrt) (take (20 * j) (drop offset (all_submissions (leetcode w))))"
    and m: "offset + 20 * j < length (all_submissions (leetcode w))"
    and k: "0 < j \<or> \<not> first"
  shows "fetchSubmissions first offset sbs mrt w =
           fetchSubmissions False (offset + 20 * j)
             (sbs @ map ref_of (filter accepted
                (take (20 * j) (drop offset (all_submissions (leetcode w)))))) mrt
             (w\<lparr>faults := fs, trace := trace w @ listing_trace first offset j\<rparr>)"
proof -
  have a: "list_all (\<lambda>f. f = None) (take j (faults w))" unfolding f by (simp add: list_all_iff)
  have d: "drop j (faults w) = fs" unfolding f by simp
  from k have b: "(first \<and> j = 0) = False" by auto
  from fetch_pages [OF a n m, of first sbs] show ?thesis unfolding d b .
qed

lemma fetch_pages_exhausted:
  assumes f: "faults w = replicate j None @ map Some es @ rest" and l: "length es = 6"
    and n: "list_all (newer mrt) (take (20 * j) (drop offset (all_submissions (leetcode w))))"
    and m: "offset + 20 * j < length (all_submissions (leetcode w))"
    and k: "0 < j \<or> \<not> first"
  shows "fetchSubmissions first offset sbs mrt w =
           (Inl (RequestFailed (last es)),
            w\<lparr>faults := rest,
               trace := trace w @ listing_trace first offset j @ [Delay 1000]
                        @ retry_trace (PostSubmissionList (offset + 20 * j)) 0 5
                        @ [PostSubmissionList (offset + 20 * j)]\<rparr>)"
proof -
  let ?w' = "w\<lparr>faults := map Some es @ rest, trace := trace w @ listing_trace first offset j\<rparr>"
  have "faults ?w' = map Some es @ rest" by simp
  from fetch_later_exhausted [OF this l] show ?thesis
    unfolding fetch_pages_then [OF f n m k] by simp
qed

lemma fetch_pages_retried:
  assumes f: "faults w = replicate j None @ map Some es @ rest"
    and r: "rest = [] \<or> hd rest = None" and l: "length es \<le> 5"
    and n: "list_all (newer mrt) (take (20 * j) (drop offset (all_submissions (leetcode w))))"
    and m: "offset + 20 * j < length (all_submissions (leetcode w))"
    and k: "0 < j \<or> \<not> first"
  shows "fetchSubmissions first offset sbs mrt w =
           fetch_continue (offset + 20 * j)
             (sbs @ map ref_of (filter accepted
                (take (20 * j) (drop offset (all_submissions (leetcode w)))))) mrt
             (page_at (leetcode w) (offset + 20 * j))
             (w\<lparr>faults := tl rest,
                trace := trace w @ listing_trace first offset j @ [Delay 1000]
                         @ retry_trace (PostSubmissionList (offset + 20 * j)) 0 (length es)
                         @ [PostSubmissionList (offset + 20 * j)]\<rparr>)"
proof -
  let ?w' = "w\<lparr>faults := map Some es @ rest, trace := trace w @ listing_trace first offset j\<rparr>"
  have "faults ?w' = map Some es @ rest" by simp
  from fetch_later_retried [OF this r l, of "offset + 20 * j"]
  have g: "getSubmissions (offset + 20 * j) 5 0 (delay 1000 ?w') =
           (Inr (page_at (leetcode w) (offset + 20 * j)),
            w\<lparr>faults := tl rest,
               trace := trace w @ listing_trace first offset j @ [Delay 1000]
                        @ retry_trace (PostSubmissionList (offset + 20 * j)) 0 (length es)
                        @ [PostSubmissionList (offset + 20 * j)]\<rparr>)"
    by simp
  show ?thesis
    unfolding fetch_pages_then [OF f n m k]
    by (simp add: fetchSubmissions.simps [of False "offset + 20 * j" _ mrt ?w'] g fetch_continue_def)
qed

lemma sync_later_listing_fails:
  assumes hd: "head (github w) = Some h"
    and cp: "resolveCheckpoint (take 100 (history h)) = Inr (ci, mrt)"
    and j: "0 < j"
    and n: "list_all (newer mrt) (take (20 * j) (all_submissions (leetcode w)))"
    and m: "20 * j < length (all_submissions (leetcode w))"
    and f: "faults w = None # replicate j None @ map Some es @ rest" and l: "length es = 6"
  shows "sync cb w =
           (Inl (RequestFailed (last es)),
            w\<lparr>faults := rest,
               trace := trace w @ [ListCommits] @ listing_trace True 0 j @ [Delay 1000]
                        @ retry_trace (PostSubmissionList (20 * j)) 0 5
                        @ [PostSubmissionList (20 * j)]\<rparr>)"
proof -
  let ?w1 = "w\<lparr>trace := trace w @ [ListCommits], faults := replicate j None @ map Some es @ rest\<rparr>"
  have lc: "listCommits w = (Inr (take 100 (history h)), ?w1)"
    using hd f by (simp add: listCommits_def request_def Let_def)
  have f1: "faults ?w1 = replicate j None @ map Some es @ rest" by simp
  have n1: "list_all (newer mrt) (take (20 * j) (drop 0 (all_submissions (leetcode ?w1))))"
    using n by simp
  have m1: "0 + 20 * j < length (all_submissions (leetcode ?w1))" using m by simp
  from j have k: "0 < j \<or> \<not> True" by simp
  from fetch_pages_exhausted [OF f1 l n1 m1 k, of "[]"] lc cp show ?thesis
    by (simp add: sync_def)
qed

section \<open>The properties\<close>



text \<open>
  Claim C2 (listing consumption filter). On a page taken in the delivered order,
  \<open>addToSubmissions\<close> stops at the first entry whose timestamp is at or below the
  checkpoint and returns \<open>False\<close>; before that entry it skips every entry whose status
  is not \<^verbatim>\<open>Accepted\<close> and appends id and titleSlug of every accepted one. The listing loop
  does the same with the whole listing behind its offset: whenever it returns a list, that
  list is what it was given followed by id and titleSlug of the accepted entries before the
  first entry at or below the checkpoint, in the delivered order, whatever the status of the
  entries in between and on whichever page they are. When none of its requests fails, it
  returns after having requested the pages up to the one that holds that first entry, or up
  to the last page when there is none, and no page behind it; on any network, a page that
  holds such an entry ends the loop with no further request. For timestamps 50, 40, 30, 20
  and checkpoint 30, exactly the entries 50 and 40 are taken.
\<close>

theorem C2_listing_filter:
  "(list_all safe_timestamp page \<longrightarrow>
      addToSubmissions page sbs mrt =
        (list_all (newer mrt) page,
         sbs @ map ref_of (filter accepted (takeWhile (newer mrt) page))))
   \<and> (safe_timestamp e \<longrightarrow> (newer (Num r) e \<longleftrightarrow> r < of_int (timestamp e)))
   \<and> (list_all safe_timestamp (all_submissions (leetcode w))
        \<and> fetchSubmissions first offset sbs mrt w = (Inr out, w') \<longrightarrow>
        out = sbs @ map ref_of (filter accepted
                (takeWhile (newer mrt) (drop offset (all_submissions (leetcode w))))))
   \<and> (list_all safe_timestamp (all_submissions (leetcode w))
        \<and> list_all (\<lambda>f. f = None) (take (pages_read mrt (leetcode w) offset) (faults w)) \<longrightarrow>
        fetchSubmissions first offset sbs mrt w =
          (Inr (sbs @ map ref_of (filter accepted
                  (takeWhile (newer mrt) (drop offset (all_submissions (leetcode w)))))),
           w\<lparr>faults := drop (pages_read mrt (leetcode w) offset) (faults w),
              trace := trace w @ listing_trace first offset (pages_read mrt (leetcode w) offset)\<rparr>))
   \<and> (list_all safe_timestamp (submissions response)
        \<and> getSubmissions offset (if first then 0 else 5) 0 (if first then w else delay 1000 w)
            = (Inr response, w1)
        \<and> \<not> list_all (newer mrt) (submissions response) \<longrightarrow>
        fetchSubmissions first offset sbs mrt w =
          (Inr (sbs @ map ref_of
                  (filter accepted (takeWhile (newer mrt) (submissions response)))), w1))
   \<and> (map timestamp page = [50, 40, 30, 20] \<and> list_all accepted page \<longrightarrow>
        addToSubmissions page [] (Num 30) = (False, map ref_of (take 2 page)))"
proof -
  have 1: "addToSubmissions page sbs mrt =
        (list_all (newer mrt) page,
         sbs @ map ref_of (filter accepted (takeWhile (newer mrt) page)))"
    by (rule addToSubmissions_closed)
  have 2: "newer (Num r) e \<longleftrightarrow> r < of_int (timestamp e)"
    by (auto simp: newer_def number_le_def)
  have 3: "out = sbs @ map ref_of (filter accepted
                (takeWhile (newer mrt) (drop offset (all_submissions (leetcode w)))))"
    if "fetchSubmissions first offset sbs mrt w = (Inr out, w')"
    using that by (rule fetch_result)
  have 4: "fetchSubmissions first offset sbs mrt w =
          (Inr (sbs @ map ref_of (filter accepted
                  (takeWhile (newer mrt) (drop offset (all_submissions (leetcode w)))))),
           w\<lparr>faults := drop (pages_read mrt (leetcode w) offset) (faults w),
              trace := trace w @ listing_trace first offset (pages_read mrt (leetcode w) offset)\<rparr>)"
    if "list_all (\<lambda>f. f = None) (take (pages_read mrt (leetcode w) offset) (faults w))"
    using that by (rule fetch_listing)
  have 5: "fetchSubmissions first offset sbs mrt w =
          (Inr (sbs @ map ref_of
                  (filter accepted (takeWhile (newer mrt) (submissions response)))), w1)"
    if "getSubmissions offset (if first then 0 else 5) 0 (if first then w else delay 1000 w)
            = (Inr response, w1)"
      and "\<not> list_all (newer mrt) (submissions response)"
    using that by (rule fetchSubmissions_stop)
  have 6: "addToSubmissions page [] (Num 30) = (False, map ref_of (take 2 page))"
    if ts: "map timestamp page = [50, 40, 30, 20]" and acc: "list_all accepted page"
  proof -
    from ts obtain a b c d where p: "page = [a, b, c, d]"
      and t: "timestamp a = 50" "timestamp b = 40" "timestamp c = 30" "timestamp d = 20"
      by (auto simp: map_eq_Cons_conv)
    from acc p have "statusDisplay a = ''Accepted''" "statusDisplay b = ''Accepted''"
      by (simp_all add: accepted_def)
    with p t show ?thesis by (simp add: number_le_def ref_of_def)
  qed
  show ?thesis
    apply (intro conjI impI)
    subgoal by (rule 1)
    subgoal by (rule 2)
    subgoal by (elim conjE, rule 3, assumption)
    subgoal by (elim conjE, rule 4, assumption)
    subgoal by (elim conjE, rule 5, assumption+)
    subgoal by (elim conjE, rule 6, assumption+)
    done
qed

text \<open>
  The long listing with checkpoint 20: the first page (45 to 26) holds entries that were
  not accepted and is followed by the second (25 to 6), where the entry 20 stops the loop;
  the third page is not requested. And the page 50, 40, 30, 20 with checkpoint 30.
\<close>

theorem C2_listing_filter_witness:
  "fetchSubmissions True 0 [] (Num 20) (example_world long_listing []) =
     (Inr (map (\<lambda>i. \<lparr>ref_id = i, ref_titleSlug = ''two-sum''\<rparr>)
             [44, 43, 41, 40, 38, 37, 35, 34, 32, 31, 29, 28, 26, 25, 23, 22]),
      (example_world long_listing [])
        \<lparr>trace := [PostSubmissionList 0, Delay 1000, PostSubmissionList 20]\<rparr>)
   \<and> addToSubmissions (take 20 long_listing) [] (Num 20) =
       (True, map (\<lambda>i. \<lparr>ref_id = i, ref_titleSlug = ''two-sum''\<rparr>)
                [44, 43, 41, 40, 38, 37, 35, 34, 32, 31, 29, 28, 26])
   \<and> fetchSubmissions True 0 [] (Num 30) (example_world example_page []) =
       (Inr [ref_of (entry 4 ''d'' 50 ''Accepted'' ''golang''),
             ref_of (entry 3 ''c'' 40 ''Accepted'' ''golang'')],
        (example_world example_page [])\<lparr>trace := [PostSubmissionList 0]\<rparr>)
   \<and> addToSubmissions example_page [] (Num 30) = (False, map ref_of (take 2 example_page))"
proof -
  let ?w = "example_world long_listing []"
  let ?v = "example_world example_page []"
  note C2 = C2_listing_filter
  have s: "list_all safe_timestamp (all_submissions (leetcode ?w))" by code_simp
  have f: "list_all (\<lambda>f. f = None) (take (pages_read (Num 20) (leetcode ?w) 0) (faults ?w))"
    by (simp add: example_world_def)
  from s f have "list_all safe_timestamp (all_submissions (leetcode ?w))
      \<and> list_all (\<lambda>f. f = None) (take (pages_read (Num 20) (leetcode ?w) 0) (faults ?w))" ..
  from C2 [where w = ?w and mrt = "Num 20" and offset = 0 and first = True and sbs = "[]",
      THEN conjunct2, THEN conjunct2, THEN conjunct2, THEN conjunct1, rule_format, OF this]
  have r: "fetchSubmissions True 0 [] (Num 20) ?w =
          (Inr ([] @ map ref_of (filter accepted
                  (takeWhile (newer (Num 20)) (drop 0 (all_submissions (leetcode ?w)))))),
           ?w\<lparr>faults := drop (pages_read (Num 20) (leetcode ?w) 0) (faults ?w),
              trace := trace ?w @ listing_trace True 0 (pages_read (Num 20) (leetcode ?w) 0)\<rparr>)" .
  have e1: "map ref_of (filter accepted
              (takeWhile (newer (Num 20)) (drop 0 (all_submissions (leetcode ?w))))) =
            map (\<lambda>i. \<lparr>ref_id = i, ref_titleSlug = ''two-sum''\<rparr>)
             [44, 43, 41, 40, 38, 37, 35, 34, 32, 31, 29, 28, 26, 25, 23, 22]"
    by code_simp
  have e2: "listing_trace True 0 (pages_read (Num 20) (leetcode ?w) 0) =
            [PostSubmissionList 0, Delay 1000, PostSubmissionList 20]"
    by code_simp
  have e3: "faults ?w = []" "trace ?w = []" by (simp_all add: example_world_def)
  have a: "fetchSubmissions True 0 [] (Num 20) ?w =
     (Inr (map (\<lambda>i. \<lparr>ref_id = i, ref_titleSlug = ''two-sum''\<rparr>)
             [44, 43, 41, 40, 38, 37, 35, 34, 32, 31, 29, 28, 26, 25, 23, 22]),
      ?w\<lparr>trace := [PostSubmissionList 0, Delay 1000, PostSubmissionList 20]\<rparr>)"
    unfolding r e1 e2 e3 by (simp add: world_faults_id e3)
  have sp: "list_all safe_timestamp (take 20 long_listing)" by code_simp
  from C2 [where page = "take 20 long_listing" and sbs = "[]" and mrt = "Num 20",
      THEN conjunct1, rule_format, OF sp]
  have "addToSubmissions (take 20 long_listing) [] (Num 20) =
        (list_all (newer (Num 20)) (take 20 long_listing),
         [] @ map ref_of (filter accepted (takeWhile (newer (Num 20)) (take 20 long_listing))))" .
  moreover have "list_all (newer (Num 20)) (take 20 long_listing)" by code_simp
  moreover have "map ref_of (filter accepted (takeWhile (newer (Num 20)) (take 20 long_listing)))
      = map (\<lambda>i. \<lparr>ref_id = i, ref_titleSlug = ''two-sum''\<rparr>)
          [44, 43, 41, 40, 38, 37, 35, 34, 32, 31, 29, 28, 26]" by code_simp
  ultimately have b: "addToSubmissions (take 20 long_listing) [] (Num 20) =
       (True, map (\<lambda>i. \<lparr>ref_id = i, ref_titleSlug = ''two-sum''\<rparr>)
                [44, 43, 41, 40, 38, 37, 35, 34, 32, 31, 29, 28, 26])" by simp
  let ?r = "\<lparr>hasNext = False, submissions = example_page\<rparr>"
  have g: "getSubmissions 0 (if True then 0 else 5) 0 (if True then ?v else delay 1000 ?v)
             = (Inr ?r, ?v\<lparr>trace := [PostSubmissionList 0]\<rparr>)"
    by (simp add: getSubmissions.simps [of 0 0 0] post_submissionList_def request_def
        example_world_def example_page_def)
  have n: "\<not> list_all (newer (Num 30)) (submissions ?r)"
    by (simp add: example_page_def newer_def number_le_def entry_def)
  have se: "list_all safe_timestamp (submissions ?r)"
    by (simp add: example_page_def safe_timestamp_def entry_def)
  from se g n have "list_all safe_timestamp (submissions ?r)
      \<and> getSubmissions 0 (if True then 0 else 5) 0 (if True then ?v else delay 1000 ?v)
            = (Inr ?r, ?v\<lparr>trace := [PostSubmissionList 0]\<rparr>)
      \<and> \<not> list_all (newer (Num 30)) (submissions ?r)" by blast
  from C2 [where first = True and offset = 0 and sbs = "[]" and mrt = "Num 30" and w = ?v
      and response = ?r and ?w1.0 = "?v\<lparr>trace := [PostSubmissionList 0]\<rparr>",
      THEN conjunct2, THEN conjunct2, THEN conjunct2, THEN conjunct2, THEN conjunct1,
      rule_format, OF this]
  have c: "fetchSubmissions True 0 [] (Num 30) ?v =
       (Inr [ref_of (entry 4 ''d'' 50 ''Accepted'' ''golang''),
             ref_of (entry 3 ''c'' 40 ''Accepted'' ''golang'')],
        ?v\<lparr>trace := [PostSubmissionList 0]\<rparr>)"
    by (simp add: example_page_def newer_def number_le_def entry_def accepted_def)
  have t: "map timestamp example_page = [50, 40, 30, 20] \<and> list_all accepted example_page"
    by (simp add: example_page_def entry_def accepted_def)
  from C2 [where page = example_page, THEN conjunct2, THEN conjunct2, THEN conjunct2,
      THEN conjunct2, THEN conjunct2, rule_format, OF t]
  have d: "addToSubmissions example_page [] (Num 30) = (False, map ref_of (take 2 example_page))" .
  from a b c d show ?thesis by blast
qed

text \<open>
  Claim C3 (checkpoint extraction). On a non-empty fetched list the scan returns author
  and committer date (in epoch seconds) of the first commit whose message starts with the
  marker, whatever follows it; without such a commit it returns 0 and the author of the
  oldest fetched commit. A marked third-newest commit dated \<^verbatim>\<open>2023-01-01T00:00:00Z\<close> gives
  1672531200 and that commit's author.
\<close>

theorem C3_checkpoint_extraction:
  "(commits \<noteq> [] \<longrightarrow>
      resolveCheckpoint commits =
        Inr (case find is_sync_commit commits of
               Some c \<Rightarrow> (author c, number_div (Date_parse (date (committer c))) 1000)
             | None \<Rightarrow> (author (last commits), Num 0)))
   \<and> (\<not> is_sync_commit c1 \<and> \<not> is_sync_commit c2 \<and> is_sync_commit c3
        \<and> date (committer c3) = ''2023-01-01T00:00:00Z'' \<longrightarrow>
        resolveCheckpoint (c1 # c2 # c3 # older) = Inr (author c3, Num 1672531200))"
  using resolveCheckpoint_find [of commits] resolveCheckpoint_find [of "c1 # c2 # c3 # older"]
  by (simp add: Date_parse_2023)

text \<open>
  A history with the marked commit in third place, and one without a marked commit.
\<close>

theorem C3_checkpoint_extraction_witness:
  "resolveCheckpoint [plain_commit ''Fix typo'' ''Bob'', plain_commit ''Add notes'' ''Bob'',
                      sync_commit_2023, plain_commit ''Initial commit'' ''Eve'']
     = Inr (\<lparr>name = ''Ann'', email = ''ann@example.org'', date = ''2023-01-01T00:00:00Z''\<rparr>,
            Num 1672531200)
   \<and> resolveCheckpoint [plain_commit ''Fix typo'' ''Bob'', plain_commit ''Initial commit'' ''Eve'']
     = Inr (\<lparr>name = ''Eve'', email = ''Eve@example.org'', date = ''2023-02-02T00:00:00Z''\<rparr>, Num 0)"
  using C3_checkpoint_extraction
    [where commits = "[plain_commit ''Fix typo'' ''Bob'', plain_commit ''Initial commit'' ''Eve'']"
       and ?c1.0 = "plain_commit ''Fix typo'' ''Bob''"
       and ?c2.0 = "plain_commit ''Add notes'' ''Bob''" and ?c3.0 = sync_commit_2023
       and older = "[plain_commit ''Initial commit'' ''Eve'']"]
  by (simp add: is_sync_commit_def startsWith_def COMMIT_MESSAGE_def plain_commit_def
      sync_commit_2023_def)

text \<open>
  Claim C4 (ordering and commit construction). The platform lists submissions with unique
  ids and strictly decreasing timestamps, so the pending list \<open>P\<close>, oldest first, has
  ascending timestamps. A run that returns has created one commit per entry of \<open>P\<close>, in
  that order, on top of the head it found: the parent of each is the commit before it (the
  old head for the first), author and committer are name and email of the recovered
  identity, and both dates are the entry's timestamp as an ISO instant. A run on a working
  network returns when every entry of \<open>P\<close> can be committed.
\<close>

theorem C4_ordering:
  assumes dist: "distinct (map sub_id (all_submissions (leetcode w)))"
    and srt: "newest_first (leetcode w)"
    and hd: "head (github w) = Some h0"
    and cp: "resolveCheckpoint (take 100 (history h0)) = Inr (ci, mrt)"
  shows "(sync cb w = (Inr (), w1) \<longrightarrow>
           (let P = pending mrt (leetcode w);
                cs = created cb (leetcode w) ci (map ref_of P) (tree h0, h0)
            in length cs = length P \<and> sorted_wrt (<) (map timestamp P)
               \<and> head (github w1) = Some (last (h0 # cs))
               \<and> history (last (h0 # cs)) = rev cs @ history h0
               \<and> (\<forall>i < length P.
                     parents (cs ! i) = [(h0 # cs) ! i]
                     \<and> author (cs ! i) =
                         \<lparr>name = name ci, email = email ci,
                            date = iso_date_time (timestamp (P ! i)) @ ''Z''\<rparr>
                     \<and> committer (cs ! i) = author (cs ! i)
                     \<and> is_sync_commit (cs ! i))))
         \<and> (faults w = []
              \<and> commit_chain cb (leetcode w) ci (map ref_of (pending mrt (leetcode w))) (tree h0, h0)
                  \<noteq> None \<longrightarrow>
              fst (sync cb w) = Inr ())"
proof -
  let ?lc = "leetcode w"
  let ?P = "pending mrt ?lc"
  let ?cs = "created cb ?lc ci (map ref_of ?P) (tree h0, h0)"
  have a: "length ?cs = length ?P \<and> sorted_wrt (<) (map timestamp ?P)
               \<and> head (github w1) = Some (last (h0 # ?cs))
               \<and> history (last (h0 # ?cs)) = rev ?cs @ history h0
               \<and> (\<forall>i < length ?P.
                     parents (?cs ! i) = [(h0 # ?cs) ! i]
                     \<and> author (?cs ! i) =
                         \<lparr>name = name ci, email = email ci,
                            date = iso_date_time (timestamp (?P ! i)) @ ''Z''\<rparr>
                     \<and> committer (?cs ! i) = author (?cs ! i)
                     \<and> is_sync_commit (?cs ! i))"
    if run: "sync cb w = (Inr (), w1)"
  proof -
    from sync_progress [OF hd cp run] obtain p where
      ch: "commit_chain cb ?lc ci (map ref_of ?P) (tree h0, h0) = Some p"
      and g1: "github w1 = (github w)\<lparr>head := Some (snd p)\<rparr>" by auto
    from created_length [OF ch] have len: "length ?cs = length ?P" by simp
    from created_last [OF ch] have lst: "snd p = last (h0 # ?cs)" by (simp del: last.simps)
    from created_history [OF ch] have hist: "history (last (h0 # ?cs)) = rev ?cs @ history h0"
      unfolding lst [symmetric] by simp
    from g1 have hd1: "head (github w1) = Some (last (h0 # ?cs))"
      unfolding lst [symmetric] by simp
    from created_pending_fields [OF dist ch]
    have "\<forall>i < length ?P.
                     parents (?cs ! i) = [(h0 # ?cs) ! i]
                     \<and> author (?cs ! i) =
                         \<lparr>name = name ci, email = email ci,
                            date = iso_date_time (timestamp (?P ! i)) @ ''Z''\<rparr>
                     \<and> committer (?cs ! i) = author (?cs ! i)
                     \<and> is_sync_commit (?cs ! i)" by simp
    with len hist hd1 pending_ascending [OF srt, of mrt] show ?thesis by blast
  qed
  have b: "fst (sync cb w) = Inr ()"
    if "faults w = []" and "commit_chain cb ?lc ci (map ref_of ?P) (tree h0, h0) \<noteq> None"
  proof -
    from that(2) obtain p where "commit_chain cb ?lc ci (map ref_of ?P) (tree h0, h0) = Some p"
      by auto
    from sync_ok [OF that(1) hd cp this] show ?thesis by auto
  qed
  from a b show ?thesis unfolding Let_def by blast
qed

text \<open>
  A complete run over the two pending submissions.
\<close>

theorem C4_ordering_witness:
  "fst (sync example_collaborators (example_world two_go [])) = Inr ()
   \<and> length example_created = 2
   \<and> head (github (snd (sync example_collaborators (example_world two_go []))))
       = Some (last (initial_commit # example_created))
   \<and> history (last (initial_commit # example_created))
       = rev example_created @ history initial_commit
   \<and> parents (example_created ! 0) = [initial_commit]
   \<and> parents (example_created ! 1) = [example_created ! 0]
   \<and> author (example_created ! 0)
       = \<lparr>name = ''Ann'', email = ''ann@example.org'', date = ''2023-01-01T00:00:00Z''\<rparr>
   \<and> author (example_created ! 1)
       = \<lparr>name = ''Ann'', email = ''ann@example.org'', date = ''2023-01-02T00:00:00Z''\<rparr>
   \<and> committer (example_created ! 0) = author (example_created ! 0)
   \<and> committer (example_created ! 1) = author (example_created ! 1)"
proof -
  let ?w = "example_world two_go []"
  let ?cb = example_collaborators
  note T = C4_ordering [OF two_go_facts(1) two_go_facts(2) two_go_facts(3) two_go_facts(4),
      where fs1 = "[]" and cb = ?cb and ?w1.0 = "snd (sync ?cb ?w)"]
  have f: "faults ?w = []" by (simp add: example_world_def)
  from T [THEN conjunct2, rule_format, OF conjI [OF f two_go_committable]]
  have ok: "fst (sync ?cb ?w) = Inr ()" .
  then have run: "sync ?cb ?w = (Inr (), snd (sync ?cb ?w))" by (simp add: prod_eq_iff)
  note R = T [THEN conjunct1, rule_format, OF run, unfolded Let_def two_go_facts(5),
      folded example_created_def]
  from R have len: "length example_created = 2" by simp
  from R have hd: "head (github (snd (sync ?cb ?w))) = Some (last (initial_commit # example_created))"
    by blast
  from R have hist: "history (last (initial_commit # example_created))
       = rev example_created @ history initial_commit" by blast
  from R have all: "\<forall>i<length [entry 1 ''two-sum'' 1672531200 ''Accepted'' ''golang'',
                    entry 2 ''two-sum'' 1672617600 ''Accepted'' ''golang''].
       parents (example_created ! i) = [(initial_commit # example_created) ! i] \<and>
       author (example_created ! i) =
       \<lparr>name = name example_user, email = email example_user,
          date = iso_date_time (timestamp
               ([entry 1 ''two-sum'' 1672531200 ''Accepted'' ''golang'',
                    entry 2 ''two-sum'' 1672617600 ''Accepted'' ''golang''] ! i)) @ ''Z''\<rparr> \<and>
       committer (example_created ! i) = author (example_created ! i) \<and>
       is_sync_commit (example_created ! i)" by blast
  from all [rule_format, of 0] have zero:
    "parents (example_created ! 0) = [initial_commit]"
    "author (example_created ! 0)
       = \<lparr>name = ''Ann'', email = ''ann@example.org'', date = ''2023-01-01T00:00:00Z''\<rparr>"
    "committer (example_created ! 0) = author (example_created ! 0)"
    by (simp_all add: entry_def example_user_def example_dates)
  from all [rule_format, of 1] have one:
    "parents (example_created ! 1) = [example_created ! 0]"
    "author (example_created ! 1)
       = \<lparr>name = ''Ann'', email = ''ann@example.org'', date = ''2023-01-02T00:00:00Z''\<rparr>"
    "committer (example_created ! 1) = author (example_created ! 1)"
    by (simp_all add: entry_def example_user_def example_dates)
  from ok len hd hist zero one show ?thesis by blast
qed

text \<open>
  Claim C5 (idempotence). After a run that returned, a second run on the same platform
  data leaves the host as it is and sends no tree, commit or ref request, whatever the
  network does; on a working network it returns as well.
\<close>

theorem C5_idempotence:
  assumes dist: "distinct (map sub_id (all_submissions (leetcode w)))"
    and run1: "sync cb w = (Inr (), w1)"
    and run2: "sync cb (w1\<lparr>faults := fs\<rparr>) = (r2, w2)"
  shows "github w2 = github w1 \<and> leetcode w2 = leetcode w
         \<and> (\<exists>evs. trace w2 = trace w1 @ evs \<and> list_all (\<lambda>ev. \<not> host_write ev) evs)
         \<and> (fs = [] \<longrightarrow> r2 = Inr ())"
proof -
  from sync_Inr_head [OF run1] obtain h0 where hd: "head (github w) = Some h0" ..
  from checkpoint_exists obtain ci mrt where
    cp: "resolveCheckpoint (take 100 (history h0)) = Inr (ci, mrt)" by blast
  let ?lc = "leetcode w"
  let ?P = "pending mrt ?lc"
  from sync_progress [OF hd cp run1] obtain p where
    ch: "commit_chain cb ?lc ci (map ref_of (take (length ?P) ?P)) (tree h0, h0) = Some p"
    and g1: "github w1 = (github w)\<lparr>head := Some (snd p)\<rparr>" and l1: "leetcode w1 = ?lc"
    by auto
  from checkpoint_after [OF dist cp _ _ ch] obtain ci' mrt' where
    cp': "resolveCheckpoint (take 100 (history (snd p))) = Inr (ci', mrt')"
    and np: "pending mrt' ?lc = []" and tr: "(tree (snd p), snd p) = p"
    by auto
  let ?w1 = "w1\<lparr>faults := fs\<rparr>"
  have hd': "head (github ?w1) = Some (snd p)" using g1 by simp
  have np': "pending mrt' (leetcode ?w1) = []" using np l1 by simp
  from sync_no_pending [OF hd' cp' np' run2] l1
  have a: "github w2 = github w1 \<and> leetcode w2 = leetcode w
         \<and> (\<exists>evs. trace w2 = trace w1 @ evs \<and> list_all (\<lambda>ev. \<not> host_write ev) evs)"
    by simp
  have "r2 = Inr ()" if "fs = []"
  proof -
    have f: "faults ?w1 = []" using that by simp
    have "commit_chain cb (leetcode ?w1) ci' (map ref_of (pending mrt' (leetcode ?w1)))
            (tree (snd p), snd p) = Some (tree (snd p), snd p)"
      using np' by simp
    from sync_ok [OF f hd' cp' this] run2 show ?thesis by auto
  qed
  with a show ?thesis by blast
qed

text \<open>
  A second run after the complete run, on a working network and on one whose first
  listing request fails.
\<close>

theorem C5_idempotence_witness:
  "fst (sync example_collaborators (example_world two_go [])) = Inr ()
   \<and> github (snd (sync example_collaborators
        ((snd (sync example_collaborators (example_world two_go [])))\<lparr>faults := []\<rparr>)))
      = github (snd (sync example_collaborators (example_world two_go [])))
   \<and> fst (sync example_collaborators
        ((snd (sync example_collaborators (example_world two_go [])))\<lparr>faults := []\<rparr>))
      = Inr ()
   \<and> github (snd (sync example_collaborators
        ((snd (sync example_collaborators (example_world two_go [])))\<lparr>faults := [None, Some 503]\<rparr>)))
      = github (snd (sync example_collaborators (example_world two_go [])))"
proof -
  let ?w = "example_world two_go []"
  let ?cb = example_collaborators
  let ?w1 = "snd (sync ?cb ?w)"
  from example_run_ok have run: "sync ?cb ?w = (Inr (), ?w1)" by (simp add: prod_eq_iff)
  have r2: "sync ?cb (?w1\<lparr>faults := fs\<rparr>)
      = (fst (sync ?cb (?w1\<lparr>faults := fs\<rparr>)), snd (sync ?cb (?w1\<lparr>faults := fs\<rparr>)))" for fs
    by simp
  from C5_idempotence [OF two_go_facts(1) run r2 [of "[]"]]
  have a: "github (snd (sync ?cb (?w1\<lparr>faults := []\<rparr>))) = github ?w1"
    and b: "fst (sync ?cb (?w1\<lparr>faults := []\<rparr>)) = Inr ()" by simp_all
  from C5_idempotence [OF two_go_facts(1) run r2 [of "[None, Some 503]"]]
  have c: "github (snd (sync ?cb (?w1\<lparr>faults := [None, Some 503]\<rparr>))) = github ?w1" by simp
  from example_run_ok a b c show ?thesis by blast
qed

text \<open>
  Claim C6 (question lookups retry and their failure surfaces). The code does otherwise:
  on one failed request \<open>getQuestionData\<close> makes no second attempt and raises nothing,
  where \<open>getSubmissionData\<close> waits a second and succeeds. The run then ends with a
  \<open>TypeError\<close> in place of the request's error, the submission uncommitted.
\<close>

theorem C6_question_lookup_single_attempt:
  "getQuestionData ''two-sum'' (example_world one_submission [Some 503]) =
     (None, (example_world one_submission [])\<lparr>trace := [PostQuestion ''two-sum'']\<rparr>)
   \<and> getSubmissionData 1 (example_world one_submission [Some 503]) =
     (Inr (Some (entry 1 ''two-sum'' 1672531200 ''Accepted'' ''golang'')),
      (example_world one_submission [])
        \<lparr>trace := [PostSubmissionDetails 1, Delay 1000, PostSubmissionDetails 1]\<rparr>)
   \<and> sync example_collaborators (example_world one_submission [None, None, None, None, Some 503]) =
     (Inl TypeError,
      (example_world one_submission [])
        \<lparr>trace := [ListCommits, PostSubmissionList 0, ReposGet, PostSubmissionDetails 1,
                   PostQuestion ''two-sum'']\<rparr>)"
  by code_simp

text \<open>
  Claim C7 (retry policy). With a budget \<open>maxRetries\<close>, \<open>getSubmissions\<close> sends the
  request once; after the failure number \<open>i\<close> (from 0) it waits \<open>3 ^ i\<close> seconds and sends
  it again, as long as \<open>i < maxRetries\<close>; the failure that exhausts the budget is returned
  as it is. The first listing request of a run has budget 0: its failure ends the run with
  that error and no delay. Every later listing request of a run, the one for page \<open>j\<close> after
  \<open>j\<close> pages that were answered and did not end the listing, comes after a one second
  delay and has budget 5: six failures in a row end the run with the sixth, after delays of
  1, 3, 9, 27 and 81 seconds, and up to five are followed by the answer, with which the
  listing loop goes on (\<open>fetch_continue\<close>) to a request that is a later one again
  (\<open>first\<close> false, \<open>j\<close> from 0).
\<close>

theorem C7_retry_policy:
  "(faults w = map Some es @ rest \<and> (rest = [] \<or> hd rest = None)
      \<and> retryCount + length es \<le> maxRetries \<longrightarrow>
      getSubmissions offset maxRetries retryCount w =
        (Inr (page_at (leetcode w) offset),
         w\<lparr>faults := tl rest,
           trace := trace w @ retry_trace (PostSubmissionList offset) retryCount (length es)
                    @ [PostSubmissionList offset]\<rparr>))
   \<and> (faults w = map Some es @ rest \<and> retryCount + length es = Suc maxRetries
        \<and> retryCount \<le> maxRetries \<longrightarrow>
      getSubmissions offset maxRetries retryCount w =
        (Inl (RequestFailed (last es)),
         w\<lparr>faults := rest,
           trace := trace w @ retry_trace (PostSubmissionList offset) retryCount (length es - 1)
                    @ [PostSubmissionList offset]\<rparr>))
   \<and> (head (github w) = Some h \<and> faults w = None # Some e # fs \<longrightarrow>
      sync cb w =
        (Inl (RequestFailed e),
         w\<lparr>faults := fs, trace := trace w @ [ListCommits, PostSubmissionList 0]\<rparr>))
   \<and> (head (github w) = Some h \<and> resolveCheckpoint (take 100 (history h)) = Inr (ci, mrt)
        \<and> 0 < j \<and> list_all (newer mrt) (take (20 * j) (all_submissions (leetcode w)))
        \<and> 20 * j < length (all_submissions (leetcode w))
        \<and> faults w = None # replicate j None @ map Some es @ rest \<and> length es = 6 \<longrightarrow>
      sync cb w =
        (Inl (RequestFailed (last es)),
         w\<lparr>faults := rest,
            trace := trace w @ [ListCommits] @ listing_trace True 0 j @ [Delay 1000]
                     @ retry_trace (PostSubmissionList (20 * j)) 0 5
                     @ [PostSubmissionList (20 * j)]\<rparr>))
   \<and> ((0 < j \<or> \<not> first)
        \<and> list_all (newer mrt) (take (20 * j) (drop offset (all_submissions (leetcode w))))
        \<and> offset + 20 * j < length (all_submissions (leetcode w))
        \<and> faults w = replicate j None @ map Some es @ rest \<and> length es = 6 \<longrightarrow>
      fetchSubmissions first offset sbs mrt w =
        (Inl (RequestFailed (last es)),
         w\<lparr>faults := rest,
            trace := trace w @ listing_trace first offset j @ [Delay 1000]
                     @ retry_trace (PostSubmissionList (offset + 20 * j)) 0 5
                     @ [PostSubmissionList (offset + 20 * j)]\<rparr>))
   \<and> ((0 < j \<or> \<not> first)
        \<and> list_all (newer mrt) (take (20 * j) (drop offset (all_submissions (leetcode w))))
        \<and> offset + 20 * j < length (all_submissions (leetcode w))
        \<and> faults w = replicate j None @ map Some es @ rest \<and> (rest = [] \<or> hd rest = None)
        \<and> length es \<le> 5 \<longrightarrow>
      fetchSubmissions first offset sbs mrt w =
        fetch_continue (offset + 20 * j)
          (sbs @ map ref_of (filter accepted
             (take (20 * j) (drop offset (all_submissions (leetcode w)))))) mrt
          (page_at (leetcode w) (offset + 20 * j))
          (w\<lparr>faults := tl rest,
             trace := trace w @ listing_trace first offset j @ [Delay 1000]
                      @ retry_trace (PostSubmissionList (offset + 20 * j)) 0 (length es)
                      @ [PostSubmissionList (offset + 20 * j)]\<rparr>))"
  apply (intro conjI impI)
  subgoal by (elim conjE, rule getSubmissions_retry, assumption+)
  subgoal by (elim conjE, rule getSubmissions_exhausted, assumption+)
  subgoal by (elim conjE, rule sync_first_listing_fails, assumption+)
  subgoal by (elim conjE, rule sync_later_listing_fails, assumption+)
  subgoal by (elim conjE, rule fetch_pages_exhausted, assumption+)
  subgoal by (elim conjE, rule fetch_pages_retried, assumption+)
  done

text \<open>
  Two failures then success; six failures; a failing first listing request of a run; a run
  over the long listing whose third listing request fails six times; the listing loop with
  six failures on the second page and with five on the third; six failures of a request
  that the loop makes as a later one; and a run over the rejected listing that gets its
  second page at the sixth attempt.
\<close>

theorem C7_retry_policy_witness:
  "getSubmissions 0 5 0 (example_world one_submission [Some 429, Some 502, None]) =
     (Inr \<lparr>hasNext = False, submissions = one_submission\<rparr>,
      (example_world one_submission [])
        \<lparr>trace := [PostSubmissionList 0, Delay 1000, PostSubmissionList 0, Delay 3000,
                   PostSubmissionList 0]\<rparr>)
   \<and> getSubmissions 0 5 0
       (example_world one_submission [Some 1, Some 2, Some 3, Some 4, Some 5, Some 6]) =
     (Inl (RequestFailed 6),
      (example_world one_submission [])
        \<lparr>trace := [PostSubmissionList 0, Delay 1000, PostSubmissionList 0, Delay 3000,
                   PostSubmissionList 0, Delay 9000, PostSubmissionList 0, Delay 27000,
                   PostSubmissionList 0, Delay 81000, PostSubmissionList 0]\<rparr>)
   \<and> sync example_collaborators (example_world one_submission [None, Some 401]) =
     (Inl (RequestFailed 401),
      (example_world one_submission [])\<lparr>trace := [ListCommits, PostSubmissionList 0]\<rparr>)
   \<and> sync example_collaborators
       (example_world long_listing
          [None, None, None, Some 1, Some 2, Some 3, Some 4, Some 5, Some 6]) =
     (Inl (RequestFailed 6),
      (example_world long_listing [])
        \<lparr>trace := [ListCommits, PostSubmissionList 0, Delay 1000, PostSubmissionList 20,
                   Delay 1000, PostSubmissionList 40, Delay 1000, PostSubmissionList 40,
                   Delay 3000, PostSubmissionList 40, Delay 9000, PostSubmissionList 40,
                   Delay 27000, PostSubmissionList 40, Delay 81000, PostSubmissionList 40]\<rparr>)
   \<and> fetchSubmissions True 0 [] (Num 0)
       (example_world long_listing [None, Some 1, Some 2, Some 3, Some 4, Some 5, Some 6]) =
     (Inl (RequestFailed 6),
      (example_world long_listing [])
        \<lparr>trace := [PostSubmissionList 0, Delay 1000, PostSubmissionList 20, Delay 1000,
                   PostSubmissionList 20, Delay 3000, PostSubmissionList 20, Delay 9000,
                   PostSubmissionList 20, Delay 27000, PostSubmissionList 20, Delay 81000,
                   PostSubmissionList 20]\<rparr>)
   \<and> fetchSubmissions True 0 [] (Num 0)
       (example_world long_listing [None, None, Some 1, Some 2, Some 3, Some 4, Some 5]) =
     (Inr (map ref_of (filter accepted long_listing)),
      (example_world long_listing [])
        \<lparr>trace := [PostSubmissionList 0, Delay 1000, PostSubmissionList 20,
                   Delay 1000, PostSubmissionList 40, Delay 1000, PostSubmissionList 40,
                   Delay 3000, PostSubmissionList 40, Delay 9000, PostSubmissionList 40,
                   Delay 27000, PostSubmissionList 40, Delay 81000, PostSubmissionList 40]\<rparr>)
   \<and> fetchSubmissions False 20 [] (Num 0)
       (example_world long_listing [Some 1, Some 2, Some 3, Some 4, Some 5, Some 6]) =
     (Inl (RequestFailed 6),
      (example_world long_listing [])
        \<lparr>trace := [Delay 1000, PostSubmissionList 20, Delay 1000, PostSubmissionList 20,
                   Delay 3000, PostSubmissionList 20, Delay 9000, PostSubmissionList 20,
                   Delay 27000, PostSubmissionList 20, Delay 81000, PostSubmissionList 20]\<rparr>)
   \<and> sync example_collaborators
       (example_world rejected_listing [None, None, Some 1, Some 2, Some 3, Some 4, Some 5]) =
     (Inr (),
      (example_world rejected_listing [])
        \<lparr>trace := [ListCommits, PostSubmissionList 0, Delay 1000, PostSubmissionList 20,
                   Delay 1000, PostSubmissionList 20, Delay 3000, PostSubmissionList 20,
                   Delay 9000, PostSubmissionList 20, Delay 27000, PostSubmissionList 20,
                   Delay 81000, PostSubmissionList 20, ReposGet]\<rparr>)"
proof -
  note C7 = C7_retry_policy
  let ?h = "GitCommit ''Initial commit'' example_user example_user [] []"
  let ?a = "example_world one_submission [Some 429, Some 502, None]"
  let ?b = "example_world one_submission [Some 1, Some 2, Some 3, Some 4, Some 5, Some 6]"
  let ?c = "example_world one_submission [None, Some 401]"
  let ?d = "example_world long_listing
              [None, None, None, Some 1, Some 2, Some 3, Some 4, Some 5, Some 6]"
  let ?e = "example_world long_listing [None, Some 1, Some 2, Some 3, Some 4, Some 5, Some 6]"
  let ?f = "example_world long_listing [None, None, Some 1, Some 2, Some 3, Some 4, Some 5]"
  let ?g = "example_world rejected_listing [None, None, Some 1, Some 2, Some 3, Some 4, Some 5]"
  have n: "(2::nat) = Suc (Suc 0)" "(5::nat) = Suc (Suc (Suc (Suc (Suc 0))))" by simp_all
  have r2: "retry_trace ev 0 2 = [ev, Delay 1000, ev, Delay 3000]" for ev
    unfolding n(1) retry_trace_Suc retry_trace_0 by simp
  have r5: "retry_trace ev 0 5 = [ev, Delay 1000, ev, Delay 3000, ev, Delay 9000, ev,
      Delay 27000, ev, Delay 81000]" for ev
    unfolding n(2) retry_trace_Suc retry_trace_0 by simp
  note r = r2 r5 r2 [unfolded n(1)] r5 [unfolded n(2)]
  have lt: "listing_trace True 0 1 = [PostSubmissionList 0]"
    "listing_trace True 0 2 = [PostSubmissionList 0, Delay 1000, PostSubmissionList 20]"
    by code_simp+
  have lt1: "listing_trace True 0 (Suc 0) = [PostSubmissionList 0]"
    by (simp add: listing_trace_Suc listing_trace_0)
  have ll: "length long_listing = 45" "length rejected_listing = 25" by code_simp+
  have nw: "list_all (newer (Num 0)) (take 20 long_listing)"
    "list_all (newer (Num 0)) (take 40 long_listing)"
    "list_all (newer (Num 0)) (drop 40 long_listing)"
    "list_all (newer (Num 0)) (take 20 rejected_listing)"
    "list_all (newer (Num 0)) (drop 20 rejected_listing)"
    by code_simp+
  have ap: "map ref_of (filter accepted (take 40 long_listing))
            @ map ref_of (filter accepted (drop 40 long_listing))
            = map ref_of (filter accepted long_listing)"
    by (simp flip: map_append filter_append)
  have na: "filter accepted (take 20 rejected_listing) = []"
    "filter accepted (drop 20 rejected_listing) = []"
    by code_simp+
  have cp: "resolveCheckpoint (take 100 (history ?h)) = Inr (example_user, Num 0)"
    by code_simp
  have "faults ?a = map Some [429, 502] @ [None] \<and> ([None] = [] \<or> hd [None] = (None :: nat option))
      \<and> 0 + length [429 :: nat, 502] \<le> 5"
    by (simp add: example_world_def)
  from C7 [where w = ?a and es = "[429, 502]" and rest = "[None]"
      and retryCount = 0 and maxRetries = 5 and offset = 0, THEN conjunct1, rule_format, OF this]
  have 1: "getSubmissions 0 5 0 ?a =
     (Inr \<lparr>hasNext = False, submissions = one_submission\<rparr>,
      (example_world one_submission [])
        \<lparr>trace := [PostSubmissionList 0, Delay 1000, PostSubmissionList 0, Delay 3000,
                   PostSubmissionList 0]\<rparr>)"
    by (simp add: example_world_def r page_at_def one_submission_def)
  have "faults ?b = map Some [1, 2, 3, 4, 5, 6] @ []
      \<and> 0 + length [1 :: nat, 2, 3, 4, 5, 6] = Suc 5 \<and> (0 :: nat) \<le> 5"
    by (simp add: example_world_def)
  from C7 [where w = ?b and es = "[1, 2, 3, 4, 5, 6]" and rest = "[]"
      and retryCount = 0 and maxRetries = 5 and offset = 0,
      THEN conjunct2, THEN conjunct1, rule_format, OF this]
  have 2: "getSubmissions 0 5 0 ?b =
     (Inl (RequestFailed 6),
      (example_world one_submission [])
        \<lparr>trace := [PostSubmissionList 0, Delay 1000, PostSubmissionList 0, Delay 3000,
                   PostSubmissionList 0, Delay 9000, PostSubmissionList 0, Delay 27000,
                   PostSubmissionList 0, Delay 81000, PostSubmissionList 0]\<rparr>)"
    by (simp add: example_world_def r)
  have "head (github ?c) = Some ?h \<and> faults ?c = None # Some 401 # []"
    by (simp add: example_world_def)
  from C7 [where w = ?c and e = 401 and fs = "[]" and cb = example_collaborators and h = ?h,
      THEN conjunct2, THEN conjunct2, THEN conjunct1, rule_format, OF this]
  have 3: "sync example_collaborators ?c =
     (Inl (RequestFailed 401),
      (example_world one_submission [])\<lparr>trace := [ListCommits, PostSubmissionList 0]\<rparr>)"
    by (simp add: example_world_def)
  have "head (github ?d) = Some ?h
      \<and> resolveCheckpoint (take 100 (history ?h)) = Inr (example_user, Num 0)
      \<and> 0 < (2 :: nat)
      \<and> list_all (newer (Num 0)) (take (20 * 2) (all_submissions (leetcode ?d)))
      \<and> 20 * 2 < length (all_submissions (leetcode ?d))
      \<and> faults ?d = None # replicate 2 None @ map Some [1, 2, 3, 4, 5, 6] @ []
      \<and> length [1 :: nat, 2, 3, 4, 5, 6] = 6"
    using cp nw ll by (simp add: example_world_def n(1))
  from C7 [where w = ?d and h = ?h and ci = example_user and mrt = "Num 0" and j = 2
      and es = "[1, 2, 3, 4, 5, 6]" and rest = "[]" and cb = example_collaborators,
      THEN conjunct2, THEN conjunct2, THEN conjunct2, THEN conjunct1, rule_format, OF this]
  have 4: "sync example_collaborators ?d =
     (Inl (RequestFailed 6),
      (example_world long_listing [])
        \<lparr>trace := [ListCommits, PostSubmissionList 0, Delay 1000, PostSubmissionList 20,
                   Delay 1000, PostSubmissionList 40, Delay 1000, PostSubmissionList 40,
                   Delay 3000, PostSubmissionList 40, Delay 9000, PostSubmissionList 40,
                   Delay 27000, PostSubmissionList 40, Delay 81000, PostSubmissionList 40]\<rparr>)"
    by (simp add: example_world_def r lt lt1)
  have "(0 < (1 :: nat) \<or> \<not> True)
      \<and> list_all (newer (Num 0)) (take (20 * 1) (drop 0 (all_submissions (leetcode ?e))))
      \<and> 0 + 20 * 1 < length (all_submissions (leetcode ?e))
      \<and> faults ?e = replicate 1 None @ map Some [1, 2, 3, 4, 5, 6] @ []
      \<and> length [1 :: nat, 2, 3, 4, 5, 6] = 6"
    using nw ll by (simp add: example_world_def)
  from C7 [where w = ?e and mrt = "Num 0" and j = 1 and offset = 0 and first = True
      and sbs = "[]" and es = "[1, 2, 3, 4, 5, 6]" and rest = "[]",
      THEN conjunct2, THEN conjunct2, THEN conjunct2, THEN conjunct2, THEN conjunct1,
      rule_format, OF this]
  have 5: "fetchSubmissions True 0 [] (Num 0) ?e =
     (Inl (RequestFailed 6),
      (example_world long_listing [])
        \<lparr>trace := [PostSubmissionList 0, Delay 1000, PostSubmissionList 20, Delay 1000,
                   PostSubmissionList 20, Delay 3000, PostSubmissionList 20, Delay 9000,
                   PostSubmissionList 20, Delay 27000, PostSubmissionList 20, Delay 81000,
                   PostSubmissionList 20]\<rparr>)"
    by (simp add: example_world_def r lt lt1)
  have "(0 < (2 :: nat) \<or> \<not> True)
      \<and> list_all (newer (Num 0)) (take (20 * 2) (drop 0 (all_submissions (leetcode ?f))))
      \<and> 0 + 20 * 2 < length (all_submissions (leetcode ?f))
      \<and> faults ?f = replicate 2 None @ map Some [1, 2, 3, 4, 5] @ []
      \<and> ([] = [] \<or> hd [] = (None :: nat option))
      \<and> length [1 :: nat, 2, 3, 4, 5] \<le> 5"
    using nw ll by (simp add: example_world_def n(1))
  from C7 [where w = ?f and mrt = "Num 0" and j = 2 and offset = 0 and first = True
      and sbs = "[]" and es = "[1, 2, 3, 4, 5]" and rest = "[]",
      THEN conjunct2, THEN conjunct2, THEN conjunct2, THEN conjunct2, THEN conjunct2,
      rule_format, OF this]
  have 6: "fetchSubmissions True 0 [] (Num 0) ?f =
     (Inr (map ref_of (filter accepted long_listing)),
      (example_world long_listing [])
        \<lparr>trace := [PostSubmissionList 0, Delay 1000, PostSubmissionList 20,
                   Delay 1000, PostSubmissionList 40, Delay 1000, PostSubmissionList 40,
                   Delay 3000, PostSubmissionList 40, Delay 9000, PostSubmissionList 40,
                   Delay 27000, PostSubmissionList 40, Delay 81000, PostSubmissionList 40]\<rparr>)"
    by (simp add: fetch_continue_def page_at_def example_world_def addToSubmissions_closed
        ll nw takeWhile_all lt lt1 r ap)
  let ?g1 = "(example_world rejected_listing [None, Some 1, Some 2, Some 3, Some 4, Some 5])
               \<lparr>trace := [ListCommits]\<rparr>"
  let ?t = "[ListCommits, PostSubmissionList 0, Delay 1000, PostSubmissionList 20,
             Delay 1000, PostSubmissionList 20, Delay 3000, PostSubmissionList 20,
             Delay 9000, PostSubmissionList 20, Delay 27000, PostSubmissionList 20,
             Delay 81000, PostSubmissionList 20]"
  have lc: "listCommits ?g = (Inr (take 100 (history ?h)), ?g1)"
    by (simp add: listCommits_def request_def example_world_def)
  have "(0 < (1 :: nat) \<or> \<not> True)
      \<and> list_all (newer (Num 0)) (take (20 * 1) (drop 0 (all_submissions (leetcode ?g1))))
      \<and> 0 + 20 * 1 < length (all_submissions (leetcode ?g1))
      \<and> faults ?g1 = replicate 1 None @ map Some [1, 2, 3, 4, 5] @ []
      \<and> ([] = [] \<or> hd [] = (None :: nat option))
      \<and> length [1 :: nat, 2, 3, 4, 5] \<le> 5"
    using nw ll by (simp add: example_world_def)
  from C7 [where w = ?g1 and mrt = "Num 0" and j = 1 and offset = 0 and first = True
      and sbs = "[]" and es = "[1, 2, 3, 4, 5]" and rest = "[]",
      THEN conjunct2, THEN conjunct2, THEN conjunct2, THEN conjunct2, THEN conjunct2,
      rule_format, OF this]
  have ft: "fetchSubmissions True 0 [] (Num 0) ?g1 =
     (Inr [], (example_world rejected_listing [])\<lparr>trace := ?t\<rparr>)"
    by (simp add: fetch_continue_def page_at_def example_world_def addToSubmissions_closed
        ll nw takeWhile_all lt lt1 r na)
  have rg: "repos_get ((example_world rejected_listing [])\<lparr>trace := ?t\<rparr>) =
     (Inr ''main'', (example_world rejected_listing [])\<lparr>trace := ?t @ [ReposGet]\<rparr>)"
    by (simp add: repos_get_def request_def example_world_def)
  have 7: "sync example_collaborators ?g =
     (Inr (), (example_world rejected_listing [])\<lparr>trace := ?t @ [ReposGet]\<rparr>)"
    using cp [simplified] ft rg unfolding sync_def lc by simp
  let ?k = "example_world long_listing [Some 1, Some 2, Some 3, Some 4, Some 5, Some 6]"
  have "(0 < (0 :: nat) \<or> \<not> False)
      \<and> list_all (newer (Num 0)) (take (20 * 0) (drop 20 (all_submissions (leetcode ?k))))
      \<and> 20 + 20 * 0 < length (all_submissions (leetcode ?k))
      \<and> faults ?k = replicate 0 None @ map Some [1, 2, 3, 4, 5, 6] @ []
      \<and> length [1 :: nat, 2, 3, 4, 5, 6] = 6"
    using ll by (simp add: example_world_def)
  from C7 [where w = ?k and mrt = "Num 0" and j = 0 and offset = 20 and first = False
      and sbs = "[]" and es = "[1, 2, 3, 4, 5, 6]" and rest = "[]",
      THEN conjunct2, THEN conjunct2, THEN conjunct2, THEN conjunct2, THEN conjunct1,
      rule_format, OF this]
  have 8: "fetchSubmissions False 20 [] (Num 0) ?k =
     (Inl (RequestFailed 6),
      (example_world long_listing [])
        \<lparr>trace := [Delay 1000, PostSubmissionList 20, Delay 1000, PostSubmissionList 20,
                   Delay 3000, PostSubmissionList 20, Delay 9000, PostSubmissionList 20,
                   Delay 27000, PostSubmissionList 20, Delay 81000, PostSubmissionList 20]\<rparr>)"
    by (simp add: example_world_def r listing_trace_0)
  from 1 2 3 4 5 6 7 8 show ?thesis by simp
qed

text \<open>
  Claim C8 (extension-mapping failure). The table has no entry for \<^verbatim>\<open>constructor\<close>, yet the
  check \<^verbatim>\<open>!LANG_TO_EXTENSION[submission.lang]\<close> of \<open>commit\<close> finds the inherited property
  and does not fail: the run creates tree, commit and ref update for the submission, with
  the text of the built-in function as file extension, and ends without error.
\<close>

theorem C8_inherited_property_name:
  "map_of LANG_TO_EXTENSION ''constructor'' = None
   \<and> extension_of ''constructor'' = Some ''function Object() { [native code] }''
   \<and> sync example_collaborators (synced_world constructor_then_go [])
     = (Inr (),
        \<lparr>github =
           \<lparr>head = Some (GitCommit ''[Easy] [Array,Hash Table] [3 ms] [2 MB]''
                    \<lparr>name = ''Ann'', email = ''ann@example.org'', date = ''2023-01-02T00:00:00Z''\<rparr>
                    \<lparr>name = ''Ann'', email = ''ann@example.org'', date = ''2023-01-02T00:00:00Z''\<rparr>
                    [(''Two Sum/two-sum.function Object() { [native code] }'', ''package main''),
                     (''Two Sum/README.md'', ''# Two Sum'')]
                    [sync_commit_2023]),
            default_branch = ''main''\<rparr>,
         leetcode = leetcode (synced_world constructor_then_go []),
         faults = [],
         trace = [ListCommits, PostSubmissionList 0, ReposGet, PostSubmissionDetails 2,
                  PostQuestion ''two-sum'', CreateTree, CreateCommit, UpdateRef]\<rparr>)"
  by code_simp

text \<open>
  Claim C9 (the marker is the character \<^verbatim>\<open>[\<close>). \<open>COMMIT_MESSAGE\<close> is \<^verbatim>\<open>[\<close>; every commit
  that \<open>commit\<close> creates has the message \<^verbatim>\<open>[difficulty] [tags] [runtime] [memory]\<close>; the
  scan takes a commit for a sync commit exactly when its message starts with \<^verbatim>\<open>[\<close>, so
  any commit whose message starts so, when it is the newest, is the checkpoint.
\<close>

theorem C9_sync_marker:
  "COMMIT_MESSAGE = ''[''
   \<and> (commit defaultBranch commitInfo treeSHA latestCommitSHA sb w = (Inr (t, c), w') \<longrightarrow>
        message c = CHR ''['' #
          s_difficulty sb @ ''] ['' @ join '','' (s_tags sb) @ ''] ['' @ s_runtimeDisplay sb @
          ''] ['' @ s_memoryDisplay sb @ '']''
        \<and> is_sync_commit c)
   \<and> (is_sync_commit c' \<longleftrightarrow> (\<exists>rest. message c' = CHR ''['' # rest))
   \<and> (message c' = CHR ''['' # rest \<longrightarrow>
        resolveCheckpoint (c' # older) =
          Inr (author c', number_div (Date_parse (date (committer c'))) 1000))"
proof -
  have a: "COMMIT_MESSAGE = ''[''" by (simp add: COMMIT_MESSAGE_def)
  have b: "message c = CHR ''['' #
          s_difficulty sb @ ''] ['' @ join '','' (s_tags sb) @ ''] ['' @ s_runtimeDisplay sb @
          ''] ['' @ s_memoryDisplay sb @ '']'' \<and> is_sync_commit c"
    if "commit defaultBranch commitInfo treeSHA latestCommitSHA sb w = (Inr (t, c), w')"
    using commit_Inr [OF that] by (auto simp: commit_message_def is_sync_commit_iff)
  have d: "resolveCheckpoint (c' # older) =
          Inr (author c', number_div (Date_parse (date (committer c'))) 1000)"
    if "message c' = CHR ''['' # rest"
    using that resolveCheckpoint_find [of "c' # older"] by (simp add: is_sync_commit_iff)
  show ?thesis using a b d is_sync_commit_iff [of c'] by blast
qed

text \<open>
  A hand-written commit \<^verbatim>\<open>[WIP] draft\<close> on top of a sync commit is taken for the checkpoint.
\<close>

theorem C9_sync_marker_witness:
  "resolveCheckpoint [plain_commit ''[WIP] draft'' ''Bob'', sync_commit_2023]
     = Inr (\<lparr>name = ''Bob'', email = ''Bob@example.org'', date = ''2023-02-02T00:00:00Z''\<rparr>,
            Num 1675296000)
   \<and> is_sync_commit (plain_commit ''[WIP] draft'' ''Bob'')"
proof -
  have d: "number_div (Date_parse ''2023-02-02T00:00:00Z'') 1000 = Num 1675296000"
    by (simp add: Date_parse_def parse_iso_def utc_millis_def digits_def expect_def fraction_def
        is_digit_def digit_val_def days_from_civil_def number_div_def)
  show ?thesis
    using C9_sync_marker [where c' = "plain_commit ''[WIP] draft'' ''Bob''" and rest = "''WIP] draft''"
        and older = "[sync_commit_2023]"] d
    by (simp add: plain_commit_def)
qed

text \<open>
  Claim C10 (an empty history is not handled). The scan fails on the empty list, and on a
  repository without commits \<open>sync\<close> fails right after listing the commits: no request
  to the platform, no write to the host.
\<close>

theorem C10_empty_history:
  "resolveCheckpoint [] = Inl TypeError
   \<and> (head (github w) = None \<longrightarrow>
        (\<exists>e w'. sync cb w = (Inl e, w') \<and> trace w' = trace w @ [ListCommits]
                \<and> github w' = github w
                \<and> (e = TypeError \<or> (\<exists>code. e = RequestFailed code))))"
proof -
  have "\<exists>e w'. sync cb w = (Inl e, w') \<and> trace w' = trace w @ [ListCommits]
                \<and> github w' = github w
                \<and> (e = TypeError \<or> (\<exists>code. e = RequestFailed code))"
    if h: "head (github w) = None"
  proof -
    obtain r w' where rq: "request ListCommits w = (r, w')" by (cases "request ListCommits w")
    from request_cases [OF rq] sync_empty_history [OF h, of cb] rq show ?thesis
      by (cases r) (auto split: list.splits option.splits)
  qed
  then show ?thesis by (simp add: resolveCheckpoint_def)
qed

text \<open>
  A repository without commits.
\<close>

theorem C10_empty_history_witness:
  "sync example_collaborators
     \<lparr>github = \<lparr>head = None, default_branch = ''main''\<rparr>,
      leetcode = \<lparr>all_submissions = one_submission, questions = []\<rparr>, faults = [], trace = []\<rparr>
   = (Inl TypeError,
      \<lparr>github = \<lparr>head = None, default_branch = ''main''\<rparr>,
       leetcode = \<lparr>all_submissions = one_submission, questions = []\<rparr>, faults = [],
       trace = [ListCommits]\<rparr>)"
proof -
  let ?w = "\<lparr>github = \<lparr>head = None, default_branch = ''main''\<rparr>,
      leetcode = \<lparr>all_submissions = one_submission, questions = []\<rparr>, faults = [], trace = []\<rparr>"
  have h: "head (github ?w) = None" by simp
  from C10_empty_history [of ?w example_collaborators] h
  obtain e w' where s: "sync example_collaborators ?w = (Inl e, w')" by blast
  have "sync example_collaborators ?w = (Inl TypeError, ?w\<lparr>trace := [ListCommits]\<rparr>)"
    by (simp add: sync_def listCommits_def request_def resolveCheckpoint_def)
  then show ?thesis by simp
qed

end
